theory Spec2Isabelle
  imports Main "HOL-Library.Numeral_Type"
begin

section \<open>The elliptic-curve library, as the code uses it\<close>

text \<open>
  The code computes over points (\<^verbatim>\<open>petlib.ec.EcPt\<close>) and big numbers
  (\<^verbatim>\<open>petlib.bn.Bn\<close>) of an external library. Big numbers are unbounded
  integers, modelled as \<^typ>\<open>int\<close>. Points are kept abstract (a type variable); the
  library is a record of the operations the code calls:
  \<^item> \<open>ec_group p\<close> is \<^verbatim>\<open>p.group\<close>, a group identifier compared with \<^verbatim>\<open>==\<close>;
  \<^item> \<open>ec_order G\<close> is \<^verbatim>\<open>G.order()\<close>, \<open>ec_infinite G\<close> is \<^verbatim>\<open>G.infinite()\<close>;
  \<^item> \<open>ec_add\<close> is the group law and \<open>ec_mul k p\<close> the scalar multiple \<^verbatim>\<open>k * p\<close>.
\<close>

record 'p ec_lib =
  ec_group :: "'p \<Rightarrow> nat"
  ec_order :: "nat \<Rightarrow> int"
  ec_infinite :: "nat \<Rightarrow> 'p"
  ec_add :: "'p \<Rightarrow> 'p \<Rightarrow> 'p"
  ec_mul :: "int \<Rightarrow> 'p \<Rightarrow> 'p"

text \<open>
  Every \<^verbatim>\<open>raise\<close> of the source and every exception of the interpreter that a
  claim depends on is a value of this type. \<open>Exception msg\<close> is
  \<^verbatim>\<open>raise Exception(msg)\<close>; \<open>ExceptionWord msg w\<close> and \<open>ExceptionGroup msg G\<close>
  carry the second argument of the exception.
\<close>

datatype error =
    Exception string
  | ExceptionWord string string
  | ExceptionGroup string nat
  | KeyError string
  | IndexError
  | AttributeError string
  | NameError string
  | TypeError
  | EcError

text \<open>
  The library refuses to add or compare two points of different groups
  (\<^verbatim>\<open>pt_add\<close> and \<^verbatim>\<open>pt_eq\<close> check \<^verbatim>\<open>other.group == self.group\<close>).
\<close>

definition pt_add :: "'p ec_lib \<Rightarrow> 'p \<Rightarrow> 'p \<Rightarrow> error + 'p" where
  "pt_add E a b = (if ec_group E b = ec_group E a then Inr (ec_add E a b) else Inl EcError)"

definition pt_eq :: "'p ec_lib \<Rightarrow> 'p \<Rightarrow> 'p \<Rightarrow> error + bool" where
  "pt_eq E a b = (if ec_group E b = ec_group E a then Inr (a = b) else Inl EcError)"

text \<open>\<^verbatim>\<open>a.mod_add(b, m)\<close>, \<^verbatim>\<open>a.mod_mul(b, m)\<close>, \<^verbatim>\<open>a.mod_sub(b, m)\<close>; the modulus is a
  group order, which is positive.\<close>

definition mod_add :: "int \<Rightarrow> int \<Rightarrow> int \<Rightarrow> int" where
  "mod_add a b m = (a + b) mod m"

definition mod_mul :: "int \<Rightarrow> int \<Rightarrow> int \<Rightarrow> int" where
  "mod_mul a b m = (a * b) mod m"

definition mod_sub :: "int \<Rightarrow> int \<Rightarrow> int \<Rightarrow> int" where
  "mod_sub a b m = (a - b) mod m"

text \<open>
  Randomness is an effect: a tape of future draws is threaded through every function
  that samples. \<^verbatim>\<open>order.random()\<close> consumes one entry and returns a number below
  the order.
\<close>

type_synonym tape = "nat \<Rightarrow> int"

definition random :: "int \<Rightarrow> tape \<Rightarrow> int \<times> tape" where
  "random m t = (t 0 mod m, \<lambda>n. t (Suc n))"

text \<open>A dictionary keeps its keys in insertion order: an association list, updated in
  place for a key it has and extended at the end otherwise.\<close>

type_synonym ('k, 'v) dict = "('k \<times> 'v) list"

fun dict_update :: "'k \<Rightarrow> 'v \<Rightarrow> ('k, 'v) dict \<Rightarrow> ('k, 'v) dict" where
  "dict_update k v [] = [(k, v)]"
| "dict_update k v (p # ps) = (if fst p = k then (k, v) # ps else p # dict_update k v ps)"

definition dict_get :: "(string, 'v) dict \<Rightarrow> string \<Rightarrow> error + 'v" where
  "dict_get d k = (case map_of d k of None \<Rightarrow> Inl (KeyError k) | Some v \<Rightarrow> Inr v)"

text \<open>\<^verbatim>\<open>d1.update(d2)\<close>: the entries of \<open>d2\<close> are written into \<open>d1\<close> in order.\<close>

definition dict_update_all :: "('k, 'v) dict \<Rightarrow> ('k, 'v) dict \<Rightarrow> ('k, 'v) dict" where
  "dict_update_all d1 d2 = fold (\<lambda>(k, v). dict_update k v) d2 d1"

text \<open>A list comprehension whose body can raise stops at the first exception.\<close>

fun map_err :: "('a \<Rightarrow> error + 'b) \<Rightarrow> 'a list \<Rightarrow> error + 'b list" where
  "map_err f [] = Inr []"
| "map_err f (x # xs) =
     (case f x of
        Inl e \<Rightarrow> Inl e
      | Inr y \<Rightarrow> (case map_err f xs of Inl e \<Rightarrow> Inl e | Inr ys \<Rightarrow> Inr (y # ys)))"

text \<open>The loop \<^verbatim>\<open>for el in xs: acc = acc + el\<close> over points.\<close>

fun add_all :: "'p ec_lib \<Rightarrow> 'p \<Rightarrow> 'p list \<Rightarrow> error + 'p" where
  "add_all E acc [] = Inr acc"
| "add_all E acc (el # els) =
     (case pt_add E acc el of Inl e \<Rightarrow> Inl e | Inr acc' \<Rightarrow> add_all E acc' els)"

section \<open>compiler/DLRep.py\<close>

text \<open>
  The statement, its prover and its verifier all carry \<open>generators\<close>, \<open>secret_names\<close>
  and \<open>lhs\<close>; \<^verbatim>\<open>recompute_commitment\<close> is called on each of them, so it is defined on the
  common part of the three records.
\<close>

record 'p dlrep =
  generators :: "'p list"
  secret_names :: "string list"
  lhs :: 'p

record 'p DLRepProof = "'p dlrep" +
  simulate :: bool

text \<open>\<open>group_order\<close> and \<open>ks\<close> are attributes that only \<^verbatim>\<open>commit\<close> sets: \<open>None\<close> is an
  object without the attribute.\<close>

record 'p DLRepProver = "'p dlrep" +
  secret_values :: "(string, int) dict"
  set_simulate :: bool
  group_order :: "int option"
  ks :: "int list option"

type_synonym 'p DLRepVerifier = "'p dlrep"

definition DLRepProver_init ::
  "'p list \<Rightarrow> string list \<Rightarrow> (string, int) dict \<Rightarrow> 'p \<Rightarrow> 'p DLRepProver" where
  "DLRepProver_init gens names vals y =
     \<lparr>generators = gens, secret_names = names, lhs = y,
      secret_values = vals, set_simulate = False, group_order = None, ks = None\<rparr>"

definition DLRepVerifier_init :: "'p list \<Rightarrow> string list \<Rightarrow> 'p \<Rightarrow> 'p DLRepVerifier" where
  "DLRepVerifier_init gens names y = \<lparr>generators = gens, secret_names = names, lhs = y\<rparr>"

definition raise_powers :: "'p ec_lib \<Rightarrow> 'p list \<Rightarrow> int list \<Rightarrow> error + 'p" where
  "raise_powers E tab_g response =
     (let left_arr = map (\<lambda>(a, b). ec_mul E a b) (zip response tab_g) in
      case tab_g of
        [] \<Rightarrow> Inl IndexError
      | g0 # _ \<Rightarrow> add_all E (ec_infinite E (ec_group E g0)) left_arr)"

text \<open>\<^verbatim>\<open>get_randomizers\<close>: one draw per term, in the order of the group of the term's
  generator, written under the term's secret name.\<close>

fun get_randomizers_loop ::
  "'p ec_lib \<Rightarrow> 'p list \<Rightarrow> nat \<Rightarrow> string list \<Rightarrow> (string, int) dict \<Rightarrow> tape
     \<Rightarrow> error + ((string, int) dict \<times> tape)" where
  "get_randomizers_loop E gens idx [] output t = Inr (output, t)"
| "get_randomizers_loop E gens idx (sec # secs) output t =
     (if idx < length gens
      then (let (to_append, t') = random (ec_order E (ec_group E (gens ! idx))) t
            in get_randomizers_loop E gens (Suc idx) secs (dict_update sec to_append output) t')
      else Inl IndexError)"

definition get_randomizers ::
  "'p ec_lib \<Rightarrow> ('p, 'm) dlrep_scheme \<Rightarrow> tape \<Rightarrow> error + ((string, int) dict \<times> tape)" where
  "get_randomizers E P t = get_randomizers_loop E (generators P) 0 (secret_names P) [] t"

definition commit ::
  "'p ec_lib \<Rightarrow> 'p DLRepProver \<Rightarrow> (string, int) dict option \<Rightarrow> tape
     \<Rightarrow> error + ('p \<times> 'p DLRepProver \<times> tape)" where
  "commit E P randomizers_dict t =
     (if secret_values P = []
      then Inl (Exception ''Trying to do a legit proof without the secrets. Can only simulate'')
      else case generators P of
        [] \<Rightarrow> Inl IndexError
      | g0 # _ \<Rightarrow>
          (let G = ec_group E g0 in
           case (case randomizers_dict of
                   None \<Rightarrow> get_randomizers E P t
                 | Some d \<Rightarrow> Inr (d, t)) of
             Inl e \<Rightarrow> Inl e
           | Inr (secret_to_random_value, t') \<Rightarrow>
               (case map_err (dict_get secret_to_random_value) (secret_names P) of
                  Inl e \<Rightarrow> Inl e
                | Inr ks' \<Rightarrow>
                    (let commits = map (\<lambda>(a, b). ec_mul E a b) (zip ks' (generators P)) in
                     case add_all E (ec_infinite E G) commits of
                       Inl e \<Rightarrow> Inl e
                     | Inr sum_ \<Rightarrow>
                         Inr (sum_, P\<lparr>group_order := Some (ec_order E G), ks := Some ks'\<rparr>, t')))))"

definition response_at :: "'p DLRepProver \<Rightarrow> int \<Rightarrow> int list \<Rightarrow> nat \<Rightarrow> error + int" where
  "response_at P challenge ks' i =
     (if i < length (secret_names P)
      then (case dict_get (secret_values P) (secret_names P ! i) of
              Inl e \<Rightarrow> Inl e
            | Inr x \<Rightarrow>
                (case group_order P of
                   None \<Rightarrow> Inl (AttributeError ''group_order'')
                 | Some q \<Rightarrow> Inr (mod_add (mod_mul x challenge q) (ks' ! i) q)))
      else Inl IndexError)"

definition compute_response :: "'p DLRepProver \<Rightarrow> int \<Rightarrow> error + int list" where
  "compute_response P challenge =
     (case ks P of
        None \<Rightarrow> Inl (AttributeError ''ks'')
      | Some ks' \<Rightarrow> map_err (response_at P challenge ks') [0..<length ks'])"

definition recompute_commitment ::
  "'p ec_lib \<Rightarrow> ('p, 'm) dlrep_scheme \<Rightarrow> int \<Rightarrow> int list \<Rightarrow> error + 'p" where
  "recompute_commitment E S challenge responses =
     (case raise_powers E (generators S) responses of
        Inl e \<Rightarrow> Inl e
      | Inr leftside \<Rightarrow> pt_add E leftside (ec_mul E (- challenge) (lhs S)))"

section \<open>The contract of the library: a group with a scalar multiplication\<close>

text \<open>
  The points of one group \<open>G\<close> form an abelian group under \<open>ec_add\<close> with neutral element
  \<open>ec_infinite G\<close>; \<open>ec_mul\<close> is the multiplication by an integer, and the order of the
  group annihilates every point. These are the laws the library guarantees for an
  elliptic-curve group; the theorems below assume them of the group the statement lives in,
  and nothing else of the library.
\<close>

definition ec_laws :: "'p ec_lib \<Rightarrow> nat \<Rightarrow> bool" where
  "ec_laws E G \<longleftrightarrow>
     0 < ec_order E G \<and>
     ec_group E (ec_infinite E G) = G \<and>
     (\<forall>a b. ec_group E a = G \<longrightarrow> ec_group E b = G \<longrightarrow> ec_group E (ec_add E a b) = G) \<and>
     (\<forall>k a. ec_group E a = G \<longrightarrow> ec_group E (ec_mul E k a) = G) \<and>
     (\<forall>a b c. ec_group E a = G \<longrightarrow> ec_group E b = G \<longrightarrow> ec_group E c = G \<longrightarrow>
        ec_add E (ec_add E a b) c = ec_add E a (ec_add E b c)) \<and>
     (\<forall>a b. ec_group E a = G \<longrightarrow> ec_group E b = G \<longrightarrow> ec_add E a b = ec_add E b a) \<and>
     (\<forall>a. ec_group E a = G \<longrightarrow> ec_add E (ec_infinite E G) a = a) \<and>
     (\<forall>a. ec_group E a = G \<longrightarrow> ec_mul E 0 a = ec_infinite E G) \<and>
     (\<forall>a. ec_group E a = G \<longrightarrow> ec_mul E 1 a = a) \<and>
     (\<forall>j k a. ec_group E a = G \<longrightarrow>
        ec_mul E (j + k) a = ec_add E (ec_mul E j a) (ec_mul E k a)) \<and>
     (\<forall>j k a. ec_group E a = G \<longrightarrow> ec_mul E (j * k) a = ec_mul E j (ec_mul E k a)) \<and>
     (\<forall>k a b. ec_group E a = G \<longrightarrow> ec_group E b = G \<longrightarrow>
        ec_mul E k (ec_add E a b) = ec_add E (ec_mul E k a) (ec_mul E k b)) \<and>
     (\<forall>a. ec_group E a = G \<longrightarrow> ec_mul E (ec_order E G) a = ec_infinite E G)"

lemma ec_order_pos: "ec_laws E G \<Longrightarrow> 0 < ec_order E G"
  unfolding ec_laws_def by (elim conjE) assumption

lemma ec_inf_group: "ec_laws E G \<Longrightarrow> ec_group E (ec_infinite E G) = G"
  unfolding ec_laws_def by (elim conjE) assumption

lemma ec_add_group_all:
  "ec_laws E G \<Longrightarrow>
     \<forall>a b. ec_group E a = G \<longrightarrow> ec_group E b = G \<longrightarrow> ec_group E (ec_add E a b) = G"
  unfolding ec_laws_def by (elim conjE) assumption

lemma ec_mul_group_all:
  "ec_laws E G \<Longrightarrow> \<forall>k a. ec_group E a = G \<longrightarrow> ec_group E (ec_mul E k a) = G"
  unfolding ec_laws_def by (elim conjE) assumption

lemma ec_add_assoc_all:
  "ec_laws E G \<Longrightarrow>
     \<forall>a b c. ec_group E a = G \<longrightarrow> ec_group E b = G \<longrightarrow> ec_group E c = G \<longrightarrow>
        ec_add E (ec_add E a b) c = ec_add E a (ec_add E b c)"
  unfolding ec_laws_def by (elim conjE) assumption

lemma ec_add_commute_all:
  "ec_laws E G \<Longrightarrow>
     \<forall>a b. ec_group E a = G \<longrightarrow> ec_group E b = G \<longrightarrow> ec_add E a b = ec_add E b a"
  unfolding ec_laws_def by (elim conjE) assumption

lemma ec_add_inf_left_all:
  "ec_laws E G \<Longrightarrow> \<forall>a. ec_group E a = G \<longrightarrow> ec_add E (ec_infinite E G) a = a"
  unfolding ec_laws_def by (elim conjE) assumption

lemma ec_mul_zero_all:
  "ec_laws E G \<Longrightarrow> \<forall>a. ec_group E a = G \<longrightarrow> ec_mul E 0 a = ec_infinite E G"
  unfolding ec_laws_def by (elim conjE) assumption

lemma ec_mul_one_all: "ec_laws E G \<Longrightarrow> \<forall>a. ec_group E a = G \<longrightarrow> ec_mul E 1 a = a"
  unfolding ec_laws_def by (elim conjE) assumption

lemma ec_mul_add_scalar_all:
  "ec_laws E G \<Longrightarrow>
     \<forall>j k a. ec_group E a = G \<longrightarrow>
        ec_mul E (j + k) a = ec_add E (ec_mul E j a) (ec_mul E k a)"
  unfolding ec_laws_def by (elim conjE) assumption

lemma ec_mul_mul_all:
  "ec_laws E G \<Longrightarrow>
     \<forall>j k a. ec_group E a = G \<longrightarrow> ec_mul E (j * k) a = ec_mul E j (ec_mul E k a)"
  unfolding ec_laws_def by (elim conjE) assumption

lemma ec_mul_add_point_all:
  "ec_laws E G \<Longrightarrow>
     \<forall>k a b. ec_group E a = G \<longrightarrow> ec_group E b = G \<longrightarrow>
        ec_mul E k (ec_add E a b) = ec_add E (ec_mul E k a) (ec_mul E k b)"
  unfolding ec_laws_def by (elim conjE) assumption

lemma ec_mul_order_all:
  "ec_laws E G \<Longrightarrow> \<forall>a. ec_group E a = G \<longrightarrow> ec_mul E (ec_order E G) a = ec_infinite E G"
  unfolding ec_laws_def by (elim conjE) assumption

lemmas ec_add_group = ec_add_group_all [rule_format]
lemmas ec_mul_group = ec_mul_group_all [rule_format]
lemmas ec_add_assoc = ec_add_assoc_all [rule_format]
lemmas ec_add_commute = ec_add_commute_all [rule_format]
lemmas ec_add_inf_left = ec_add_inf_left_all [rule_format]
lemmas ec_mul_zero = ec_mul_zero_all [rule_format]
lemmas ec_mul_one = ec_mul_one_all [rule_format]
lemmas ec_mul_add_scalar = ec_mul_add_scalar_all [rule_format]
lemmas ec_mul_mul = ec_mul_mul_all [rule_format]
lemmas ec_mul_add_point = ec_mul_add_point_all [rule_format]
lemmas ec_mul_order = ec_mul_order_all [rule_format]

lemma ec_add_inf_right: "ec_laws E G \<Longrightarrow> ec_group E a = G \<Longrightarrow> ec_add E a (ec_infinite E G) = a"
  using ec_add_commute [of E G a "ec_infinite E G"] ec_add_inf_left [of E G a] ec_inf_group [of E G]
  by simp

lemma ec_mul_inf:
  assumes L: "ec_laws E G"
  shows "ec_mul E k (ec_infinite E G) = ec_infinite E G"
proof -
  let ?O = "ec_infinite E G"
  have g: "ec_group E ?O = G" by (rule ec_inf_group [OF L])
  have "ec_mul E k ?O = ec_mul E k (ec_mul E 0 ?O)"
    by (simp add: ec_mul_zero [OF L g])
  also have "\<dots> = ec_mul E (k * 0) ?O"
    by (simp only: ec_mul_mul [OF L g])
  also have "\<dots> = ?O"
    by (simp add: ec_mul_zero [OF L g])
  finally show ?thesis .
qed

lemma ec_mul_mod:
  assumes L: "ec_laws E G" and a: "ec_group E a = G"
  shows "ec_mul E (k mod ec_order E G) a = ec_mul E k a"
proof -
  let ?q = "ec_order E G"
  have "ec_mul E k a = ec_mul E ((k div ?q) * ?q + k mod ?q) a"
    by (simp only: div_mult_mod_eq)
  also have "\<dots> = ec_add E (ec_mul E ((k div ?q) * ?q) a) (ec_mul E (k mod ?q) a)"
    by (rule ec_mul_add_scalar [OF L a])
  also have "ec_mul E ((k div ?q) * ?q) a = ec_infinite E G"
    by (simp only: ec_mul_mul [OF L a] ec_mul_order [OF L a] ec_mul_inf [OF L])
  also have "ec_add E (ec_infinite E G) (ec_mul E (k mod ?q) a) = ec_mul E (k mod ?q) a"
    by (rule ec_add_inf_left [OF L ec_mul_group [OF L a]])
  finally show ?thesis by simp
qed

lemma ec_add_cancel_neg:
  assumes L: "ec_laws E G" and a: "ec_group E a = G"
  shows "ec_add E (ec_mul E c a) (ec_mul E (- c) a) = ec_infinite E G"
proof -
  have "ec_add E (ec_mul E c a) (ec_mul E (- c) a) = ec_mul E (c + - c) a"
    by (rule ec_mul_add_scalar [OF L a, symmetric])
  then show ?thesis by (simp add: ec_mul_zero [OF L a])
qed

lemma ec_add_swap4:
  assumes L: "ec_laws E G"
    and a: "ec_group E a = G" and b: "ec_group E b = G"
    and c: "ec_group E c = G" and d: "ec_group E d = G"
  shows "ec_add E (ec_add E a b) (ec_add E c d) = ec_add E (ec_add E a c) (ec_add E b d)"
proof -
  note grp = ec_add_group [OF L]
  have "ec_add E (ec_add E a b) (ec_add E c d) = ec_add E a (ec_add E b (ec_add E c d))"
    by (rule ec_add_assoc [OF L a b grp [OF c d]])
  also have "ec_add E b (ec_add E c d) = ec_add E (ec_add E b c) d"
    by (rule ec_add_assoc [OF L b c d, symmetric])
  also have "ec_add E b c = ec_add E c b"
    by (rule ec_add_commute [OF L b c])
  also have "ec_add E (ec_add E c b) d = ec_add E c (ec_add E b d)"
    by (rule ec_add_assoc [OF L c b d])
  also have "ec_add E a (ec_add E c (ec_add E b d)) = ec_add E (ec_add E a c) (ec_add E b d)"
    by (rule ec_add_assoc [OF L a c grp [OF b d], symmetric])
  finally show ?thesis .
qed

text \<open>A library to run the model on: the residues modulo 7, tagged with a group
  identifier. Each group is cyclic of prime order 7.\<close>

definition Z7_lib :: "(nat \<times> 7) ec_lib" where
  "Z7_lib =
     \<lparr>ec_group = fst, ec_order = (\<lambda>G. 7), ec_infinite = (\<lambda>G. (G, 0)),
      ec_add = (\<lambda>a b. (fst a, snd a + snd b)),
      ec_mul = (\<lambda>k a. (fst a, of_int k * snd a))\<rparr>"

lemma seven_zero: "(7 :: 7) = 0"
  by simp

lemma Z7_laws: "ec_laws Z7_lib G"
  unfolding ec_laws_def Z7_lib_def
  by (simp add: algebra_simps seven_zero)

section \<open>Sums of multiples\<close>

text \<open>\<open>lin_comb E G [c\<^sub>1, \<dots>] [p\<^sub>1, \<dots>]\<close> is the point \<open>c\<^sub>1 * p\<^sub>1 + \<dots>\<close> of the group \<open>G\<close>:
  what the loops of \<^verbatim>\<open>raise_powers\<close> and \<^verbatim>\<open>commit\<close> compute.\<close>

fun lin_comb :: "'p ec_lib \<Rightarrow> nat \<Rightarrow> int list \<Rightarrow> 'p list \<Rightarrow> 'p" where
  "lin_comb E G (c # cs) (p # ps) = ec_add E (ec_mul E c p) (lin_comb E G cs ps)"
| "lin_comb E G _ _ = ec_infinite E G"

lemma lin_comb_group:
  assumes L: "ec_laws E G"
  shows "\<forall>g\<in>set ps. ec_group E g = G \<Longrightarrow> ec_group E (lin_comb E G cs ps) = G"
proof (induction cs arbitrary: ps)
  case Nil
  show ?case by (simp add: ec_inf_group [OF L])
next
  case (Cons c cs)
  show ?case
  proof (cases ps)
    case Nil
    then show ?thesis by (simp add: ec_inf_group [OF L])
  next
    case (Cons p ps')
    with Cons.prems Cons.IH [of ps'] show ?thesis
      by (simp add: ec_add_group [OF L] ec_mul_group [OF L])
  qed
qed

lemma add_all_lin_comb:
  assumes L: "ec_laws E G"
  shows "ec_group E acc = G \<Longrightarrow> \<forall>g\<in>set ps. ec_group E g = G \<Longrightarrow>
     add_all E acc (map (\<lambda>(a, b). ec_mul E a b) (zip cs ps)) =
       Inr (ec_add E acc (lin_comb E G cs ps))"
proof (induction cs arbitrary: ps acc)
  case Nil
  then show ?case by (simp add: ec_add_inf_right [OF L])
next
  case (Cons c cs)
  show ?case
  proof (cases ps)
    case Nil
    with Cons.prems show ?thesis by (simp add: ec_add_inf_right [OF L])
  next
    case (Cons p ps')
    have p: "ec_group E p = G" and ps': "\<forall>g\<in>set ps'. ec_group E g = G"
      using Cons Cons.prems by simp_all
    have m: "ec_group E (ec_mul E c p) = G"
      by (rule ec_mul_group [OF L p])
    have a: "ec_group E (ec_add E acc (ec_mul E c p)) = G"
      by (rule ec_add_group [OF L Cons.prems(1) m])
    have r: "ec_group E (lin_comb E G cs ps') = G"
      by (rule lin_comb_group [OF L ps'])
    have "add_all E acc (map (\<lambda>(a, b). ec_mul E a b) (zip (c # cs) ps)) =
        add_all E (ec_add E acc (ec_mul E c p)) (map (\<lambda>(a, b). ec_mul E a b) (zip cs ps'))"
      using Cons Cons.prems(1) m by (simp add: pt_add_def)
    also have "\<dots> = Inr (ec_add E (ec_add E acc (ec_mul E c p)) (lin_comb E G cs ps'))"
      by (rule Cons.IH [OF a ps'])
    also have "ec_add E (ec_add E acc (ec_mul E c p)) (lin_comb E G cs ps') =
        ec_add E acc (ec_add E (ec_mul E c p) (lin_comb E G cs ps'))"
      by (rule ec_add_assoc [OF L Cons.prems(1) m r])
    finally show ?thesis using Cons by simp
  qed
qed

lemma raise_powers_lin_comb:
  assumes L: "ec_laws E G" and ne: "ps \<noteq> []" and ps: "\<forall>g\<in>set ps. ec_group E g = G"
  shows "raise_powers E ps cs = Inr (lin_comb E G cs ps)"
proof -
  from ne obtain p ps' where eq: "ps = p # ps'" by (cases ps) auto
  with ps have p: "ec_group E p = G" by simp
  have "raise_powers E ps cs =
      add_all E (ec_infinite E G) (map (\<lambda>(a, b). ec_mul E a b) (zip cs ps))"
    using eq p by (simp add: raise_powers_def)
  also have "\<dots> = Inr (ec_add E (ec_infinite E G) (lin_comb E G cs ps))"
    by (rule add_all_lin_comb [OF L ec_inf_group [OF L] ps])
  also have "ec_add E (ec_infinite E G) (lin_comb E G cs ps) = lin_comb E G cs ps"
    by (rule ec_add_inf_left [OF L lin_comb_group [OF L ps]])
  finally show ?thesis .
qed

text \<open>The responses \<open>s\<^sub>i = k\<^sub>i + c * x\<^sub>i (mod q)\<close> combine to
  \<open>\<Sum> k\<^sub>i * G\<^sub>i + c * \<Sum> x\<^sub>i * G\<^sub>i\<close>.\<close>

lemma lin_comb_response:
  assumes L: "ec_laws E G"
  shows "\<forall>g\<in>set ps. ec_group E g = G \<Longrightarrow> length xs = length ps \<Longrightarrow> length cs = length ps \<Longrightarrow>
     lin_comb E G (map (\<lambda>(x, k). mod_add (mod_mul x c (ec_order E G)) k (ec_order E G)) (zip xs cs)) ps =
       ec_add E (lin_comb E G cs ps) (ec_mul E c (lin_comb E G xs ps))"
proof (induction ps arbitrary: xs cs)
  case Nil
  then show ?case
    by (simp add: ec_mul_inf [OF L] ec_add_inf_left [OF L] ec_inf_group [OF L])
next
  case (Cons p ps)
  from Cons.prems obtain x xs' where xs: "xs = x # xs'" and lx: "length xs' = length ps"
    by (cases xs) auto
  from Cons.prems obtain k cs' where cs: "cs = k # cs'" and lc: "length cs' = length ps"
    by (cases cs) auto
  let ?q = "ec_order E G"
  let ?R = "lin_comb E G (map (\<lambda>(x, k). mod_add (mod_mul x c ?q) k ?q) (zip xs' cs')) ps"
  have p: "ec_group E p = G" and ps: "\<forall>g\<in>set ps. ec_group E g = G"
    using Cons.prems by simp_all
  note mg = ec_mul_group [OF L]
  note lg = lin_comb_group [OF L ps]
  have IH: "?R = ec_add E (lin_comb E G cs' ps) (ec_mul E c (lin_comb E G xs' ps))"
    by (rule Cons.IH [OF ps lx lc])
  have "ec_mul E (mod_add (mod_mul x c ?q) k ?q) p = ec_mul E (x * c mod ?q + k) p"
    by (simp add: mod_add_def mod_mul_def ec_mul_mod [OF L p])
  also have "\<dots> = ec_add E (ec_mul E (x * c mod ?q) p) (ec_mul E k p)"
    by (rule ec_mul_add_scalar [OF L p])
  also have "ec_mul E (x * c mod ?q) p = ec_mul E (c * x) p"
    by (simp add: ec_mul_mod [OF L p] mult.commute)
  also have "\<dots> = ec_mul E c (ec_mul E x p)"
    by (rule ec_mul_mul [OF L p])
  finally have head: "ec_mul E (mod_add (mod_mul x c ?q) k ?q) p =
      ec_add E (ec_mul E c (ec_mul E x p)) (ec_mul E k p)" .
  have "lin_comb E G (map (\<lambda>(x, k). mod_add (mod_mul x c ?q) k ?q) (zip xs cs)) (p # ps) =
      ec_add E (ec_add E (ec_mul E c (ec_mul E x p)) (ec_mul E k p))
        (ec_add E (lin_comb E G cs' ps) (ec_mul E c (lin_comb E G xs' ps)))"
    by (simp add: xs cs head IH)
  also have "\<dots> = ec_add E (ec_add E (ec_mul E k p) (ec_mul E c (ec_mul E x p)))
        (ec_add E (lin_comb E G cs' ps) (ec_mul E c (lin_comb E G xs' ps)))"
    by (simp only: ec_add_commute [OF L mg [OF mg [OF p]] mg [OF p]])
  also have "\<dots> = ec_add E (ec_add E (ec_mul E k p) (lin_comb E G cs' ps))
        (ec_add E (ec_mul E c (ec_mul E x p)) (ec_mul E c (lin_comb E G xs' ps)))"
    by (rule ec_add_swap4 [OF L mg [OF p] mg [OF mg [OF p]] lg mg [OF lg]])
  also have "ec_add E (ec_mul E c (ec_mul E x p)) (ec_mul E c (lin_comb E G xs' ps)) =
      ec_mul E c (ec_add E (ec_mul E x p) (lin_comb E G xs' ps))"
    by (rule ec_mul_add_point [OF L mg [OF p] lg, symmetric])
  finally show ?case by (simp add: xs cs)
qed

lemma map_err_length: "map_err f xs = Inr ys \<Longrightarrow> length ys = length xs"
  by (induction xs arbitrary: ys) (auto split: sum.splits)

lemma map_err_nth: "map_err f xs = Inr ys \<Longrightarrow> i < length xs \<Longrightarrow> f (xs ! i) = Inr (ys ! i)"
proof (induction xs arbitrary: ys i)
  case Nil
  then show ?case by simp
next
  case (Cons x xs)
  then show ?case
    by (cases i) (auto split: sum.splits)
qed

lemma map_err_all: "\<forall>x\<in>set xs. f x = Inr (g x) \<Longrightarrow> map_err f xs = Inr (map g xs)"
  by (induction xs) auto

lemma map_err_upt:
  assumes "\<And>i. i < n \<Longrightarrow> f i = Inr (zs ! i)" and "length zs = n"
  shows "map_err f [0..<n] = Inr zs"
proof -
  have "map_err f [0..<n] = Inr (map (\<lambda>i. zs ! i) [0..<n])"
    by (rule map_err_all) (simp add: assms(1))
  also have "map (\<lambda>i. zs ! i) [0..<n] = zs"
    using assms(2) map_nth [of zs] by simp
  finally show ?thesis .
qed

section \<open>The atomic protocol\<close>

text \<open>
  Claim C1 (completeness of the atomic protocol). Let the generators of a prover be
  non-empty and lie in one group \<open>G\<close> that obeys the laws, with as many secret names as
  generators; let the secret values \<open>xs\<close> of the names satisfy \<open>lhs = \<Sum> x\<^sub>i * G\<^sub>i\<close>, and let
  the randomizer dictionary give the scalars \<open>cs\<close> for the names. Then for every challenge
  \<open>c\<close>, \<^verbatim>\<open>commit\<close> returns the point \<open>\<Sum> k\<^sub>i * G\<^sub>i\<close>, \<^verbatim>\<open>compute_response\<close> returns the
  responses \<open>s\<^sub>i = (x\<^sub>i * c mod q + k\<^sub>i) mod q\<close>, and \<^verbatim>\<open>recompute_commitment\<close> of the challenge
  and these responses, on any party with the same generators and left-hand side, returns
  the committed point.
\<close>

theorem dlrep_completeness:
  assumes L: "ec_laws E G"
    and ne: "generators P \<noteq> []"
    and gens: "\<forall>g\<in>set (generators P). ec_group E g = G"
    and y: "ec_group E (lhs P) = G"
    and len: "length (secret_names P) = length (generators P)"
    and xs: "map_err (dict_get (secret_values P)) (secret_names P) = Inr xs"
    and rel: "raise_powers E (generators P) xs = Inr (lhs P)"
    and cs: "map_err (dict_get rd) (secret_names P) = Inr cs"
    and V: "generators V = generators P" "lhs V = lhs P"
  shows "\<exists>com P' resp.
     commit E P (Some rd) t = Inr (com, P', t) \<and>
     raise_powers E (generators P) cs = Inr com \<and>
     compute_response P' c = Inr resp \<and>
     resp = map (\<lambda>(x, k). mod_add (mod_mul x c (ec_order E G)) k (ec_order E G)) (zip xs cs) \<and>
     recompute_commitment E V c resp = Inr com"
proof -
  let ?q = "ec_order E G"
  let ?names = "secret_names P"
  let ?gens = "generators P"
  let ?P' = "P\<lparr>group_order := Some ?q, ks := Some cs\<rparr>"
  let ?resp = "map (\<lambda>(x, k). mod_add (mod_mul x c ?q) k ?q) (zip xs cs)"
  let ?com = "lin_comb E G cs ?gens"
  from ne obtain g0 gs where geq: "?gens = g0 # gs" by (cases ?gens) auto
  with gens have g0: "ec_group E g0 = G" by simp
  have lxs: "length xs = length ?gens" and lcs: "length cs = length ?gens"
    using map_err_length [OF xs] map_err_length [OF cs] len by simp_all
  from geq len obtain n0 ns where neq: "?names = n0 # ns" by (cases ?names) auto
  have sv: "secret_values P \<noteq> []"
  proof
    assume "secret_values P = []"
    with xs neq show False by (simp add: dict_get_def)
  qed
  have rp: "raise_powers E ?gens cs = Inr ?com"
    by (rule raise_powers_lin_comb [OF L ne gens])
  have aa: "add_all E (ec_infinite E G) (map (\<lambda>(a, b). ec_mul E a b) (zip cs ?gens)) = Inr ?com"
    using rp geq g0 by (simp add: raise_powers_def)
  have commit: "commit E P (Some rd) t = Inr (?com, ?P', t)"
    using sv geq g0 cs aa by (simp add: commit_def)
  have "compute_response ?P' c = map_err (response_at ?P' c cs) [0..<length cs]"
    by (simp add: compute_response_def)
  also have "\<dots> = Inr ?resp"
  proof (rule map_err_upt)
    fix i assume i: "i < length cs"
    with lcs len have i': "i < length ?names" by simp
    have "dict_get (secret_values P) (?names ! i) = Inr (xs ! i)"
      by (rule map_err_nth [OF xs i'])
    with i i' lxs lcs show "response_at ?P' c cs i = Inr (?resp ! i)"
      by (simp add: response_at_def)
  qed (simp add: lxs lcs)
  finally have resp: "compute_response ?P' c = Inr ?resp" .
  have yeq: "lhs P = lin_comb E G xs ?gens"
    using rel raise_powers_lin_comb [OF L ne gens, of xs] by simp
  have gc: "ec_group E ?com = G" and gy: "ec_group E (lin_comb E G xs ?gens) = G"
    by (rule lin_comb_group [OF L gens])+
  have "raise_powers E ?gens ?resp = Inr (lin_comb E G ?resp ?gens)"
    by (rule raise_powers_lin_comb [OF L ne gens])
  also have "lin_comb E G ?resp ?gens = ec_add E ?com (ec_mul E c (lhs P))"
    unfolding yeq by (rule lin_comb_response [OF L gens lxs lcs])
  finally have rpr: "raise_powers E ?gens ?resp = Inr (ec_add E ?com (ec_mul E c (lhs P)))" .
  have gcy: "ec_group E (ec_mul E c (lhs P)) = G" and gny: "ec_group E (ec_mul E (- c) (lhs P)) = G"
    by (rule ec_mul_group [OF L y])+
  have "recompute_commitment E V c ?resp =
      Inr (ec_add E (ec_add E ?com (ec_mul E c (lhs P))) (ec_mul E (- c) (lhs P)))"
    using rpr V gny ec_add_group [OF L gc gcy]
    by (simp add: recompute_commitment_def pt_add_def)
  also have "ec_add E (ec_add E ?com (ec_mul E c (lhs P))) (ec_mul E (- c) (lhs P)) =
      ec_add E ?com (ec_add E (ec_mul E c (lhs P)) (ec_mul E (- c) (lhs P)))"
    by (rule ec_add_assoc [OF L gc gcy gny])
  also have "\<dots> = ?com"
    by (simp add: ec_add_cancel_neg [OF L y] ec_add_inf_right [OF L gc])
  finally have "recompute_commitment E V c ?resp = Inr ?com" .
  with commit rp resp show ?thesis by blast
qed

definition P0 :: "(nat \<times> 7) DLRepProver" where
  "P0 = DLRepProver_init [(0, 1), (0, 3)] [''x'', ''y''] [(''x'', 3), (''y'', 5)] (0, 4)"

theorem dlrep_completeness_witness:
  "\<exists>com P' resp.
     commit Z7_lib P0 (Some [(''x'', 2), (''y'', 6)]) (\<lambda>_. 0) = Inr (com, P', \<lambda>_. 0) \<and>
     raise_powers Z7_lib (generators P0) [2, 6] = Inr com \<and>
     compute_response P' 4 = Inr resp \<and>
     resp = map (\<lambda>(x, k). mod_add (mod_mul x 4 (ec_order Z7_lib 0)) k (ec_order Z7_lib 0))
              (zip [3, 5] [2, 6]) \<and>
     recompute_commitment Z7_lib (DLRepVerifier_init [(0, 1), (0, 3)] [''x'', ''y''] (0, 4)) 4 resp = Inr com"
  by (rule dlrep_completeness [where G = 0 and xs = "[3, 5]" and cs = "[2, 6]", OF Z7_laws])
     (simp_all add: P0_def DLRepProver_init_def DLRepVerifier_init_def dict_get_def
        raise_powers_def pt_add_def Z7_lib_def)

section \<open>Simulation\<close>

text \<open>Modelled from the spec: \<^verbatim>\<open>chal_128bits\<close> is imported from \<^verbatim>\<open>SigmaProtocol\<close>, which is
  not among the sources. The spec (4.G): a uniformly random 128-bit scalar.\<close>

definition chal_128bits :: "tape \<Rightarrow> int \<times> tape" where
  "chal_128bits t = random (2 ^ 128) t"

definition simulate_proof ::
  "'p ec_lib \<Rightarrow> 'p DLRepProver \<Rightarrow> (string, int) dict option \<Rightarrow> int option \<Rightarrow> tape
     \<Rightarrow> error + (('p \<times> int \<times> int list) \<times> tape)" where
  "simulate_proof E P responses_dict challenge t =
     (case (case responses_dict of
              None \<Rightarrow> get_randomizers E P t
            | Some d \<Rightarrow> Inr (d, t)) of
        Inl e \<Rightarrow> Inl e
      | Inr (responses_dict', t1) \<Rightarrow>
          (let (challenge', t2) = (case challenge of
                                    None \<Rightarrow> chal_128bits t1
                                  | Some c \<Rightarrow> (c, t1)) in
           case map_err (dict_get responses_dict') (secret_names P) of
             Inl e \<Rightarrow> Inl e
           | Inr response \<Rightarrow>
               (case recompute_commitment E P challenge' response of
                  Inl e \<Rightarrow> Inl e
                | Inr commitment \<Rightarrow> Inr ((commitment, challenge', response), t2))))"

lemma recompute_commitment_cong:
  "generators V = generators P \<Longrightarrow> lhs V = lhs P \<Longrightarrow>
     recompute_commitment E V c resp = recompute_commitment E P c resp"
  by (simp add: recompute_commitment_def split: sum.splits)

lemma simulate_proof_InrD:
  assumes "simulate_proof E P rdo co t = Inr ((com, c, resp), t')"
  shows "recompute_commitment E P c resp = Inr com"
    and "\<exists>d. map_err (dict_get d) (secret_names P) = Inr resp \<and> (\<forall>d'. rdo = Some d' \<longrightarrow> d = d')"
    and "\<forall>c'. co = Some c' \<longrightarrow> c = c'"
  using assms
  by (auto simp: simulate_proof_def split: sum.splits option.splits prod.splits)

lemma recompute_commitment_returns:
  assumes L: "ec_laws E G"
    and ne: "generators P \<noteq> []"
    and gens: "\<forall>g\<in>set (generators P). ec_group E g = G"
    and y: "ec_group E (lhs P) = G"
  shows "recompute_commitment E P c resp =
     Inr (ec_add E (lin_comb E G resp (generators P)) (ec_mul E (- c) (lhs P)))"
  using raise_powers_lin_comb [OF L ne gens, of resp] ec_mul_group [OF L y, of "- c"]
    lin_comb_group [OF L gens, of resp]
  by (simp add: recompute_commitment_def pt_add_def)

text \<open>
  Claim C3 (a simulated transcript passes the verifier's check). For every prover, every
  challenge \<open>c\<close> and every dictionary of responses: if \<^verbatim>\<open>simulate_proof\<close> returns a
  triple (commitment, challenge, responses), the challenge is \<open>c\<close>, the responses are the
  dictionary's values for the secret names, and \<^verbatim>\<open>recompute_commitment\<close> of the challenge
  and the responses, on any party with the same generators and left-hand side, returns the
  commitment. And it does return when the generators are non-empty and lie with the
  left-hand side in one group that obeys the laws, and the dictionary has every secret name.
\<close>

theorem simulate_proof_verifies:
  assumes V: "generators V = generators P" "lhs V = lhs P"
  shows "(\<forall>com c' resp t'. simulate_proof E P (Some rd) (Some c) t = Inr ((com, c', resp), t') \<longrightarrow>
            c' = c \<and> map_err (dict_get rd) (secret_names P) = Inr resp \<and>
            recompute_commitment E V c' resp = Inr com) \<and>
         (ec_laws E G \<and> generators P \<noteq> [] \<and> (\<forall>g\<in>set (generators P). ec_group E g = G) \<and>
          ec_group E (lhs P) = G \<and> map_err (dict_get rd) (secret_names P) = Inr resp0 \<longrightarrow>
            (\<exists>com. simulate_proof E P (Some rd) (Some c) t = Inr ((com, c, resp0), t)))"
proof (intro conjI allI impI)
  fix com c' resp t'
  assume s: "simulate_proof E P (Some rd) (Some c) t = Inr ((com, c', resp), t')"
  from simulate_proof_InrD(3) [OF s] show "c' = c" by simp
  from simulate_proof_InrD(2) [OF s] show "map_err (dict_get rd) (secret_names P) = Inr resp"
    by auto
  from simulate_proof_InrD(1) [OF s] show "recompute_commitment E V c' resp = Inr com"
    by (simp add: recompute_commitment_cong [OF V])
next
  assume a: "ec_laws E G \<and> generators P \<noteq> [] \<and> (\<forall>g\<in>set (generators P). ec_group E g = G) \<and>
          ec_group E (lhs P) = G \<and> map_err (dict_get rd) (secret_names P) = Inr resp0"
  then have "recompute_commitment E P c resp0 =
      Inr (ec_add E (lin_comb E G resp0 (generators P)) (ec_mul E (- c) (lhs P)))"
    by (intro recompute_commitment_returns) simp_all
  with a show "\<exists>com. simulate_proof E P (Some rd) (Some c) t = Inr ((com, c, resp0), t)"
    by (simp add: simulate_proof_def)
qed


text \<open>A simulator (\<^verbatim>\<open>get_simulator\<close>: a prover with no secret values) to run the model on.\<close>

definition S0 :: "(nat \<times> 7) DLRepProver" where
  "S0 = DLRepProver_init [(0, 1), (0, 3)] [''x'', ''y''] [] (0, 4)"

theorem simulate_proof_verifies_witness:
  "simulate_proof Z7_lib S0 (Some [(''x'', 2), (''y'', 6)]) (Some 4) (\<lambda>_. 0) =
     Inr (((0, 4), 4, [2, 6]), \<lambda>_. 0) \<and>
   recompute_commitment Z7_lib (DLRepVerifier_init [(0, 1), (0, 3)] [''x'', ''y''] (0, 4)) 4 [2, 6] =
     Inr (0, 4)"
proof -
  have s: "simulate_proof Z7_lib S0 (Some [(''x'', 2), (''y'', 6)]) (Some 4) (\<lambda>_. 0) =
     Inr (((0, 4), 4, [2, 6]), \<lambda>_. 0)"
    by (simp add: simulate_proof_def S0_def DLRepProver_init_def dict_get_def
        recompute_commitment_def raise_powers_def pt_add_def Z7_lib_def)
  have "generators (DLRepVerifier_init [(0, 1), (0, 3)] [''x'', ''y''] (0, 4)) = generators S0"
    and "lhs (DLRepVerifier_init [(0, 1), (0, 3)] [''x'', ''y''] ((0, 4) :: nat \<times> 7)) = lhs S0"
    by (simp_all add: S0_def DLRepProver_init_def DLRepVerifier_init_def)
  from simulate_proof_verifies [OF this, of Z7_lib "[(''x'', 2), (''y'', 6)]" 4 "\<lambda>_. 0"] s
  show ?thesis by blast
qed

lemma map_of_dict_update: "map_of (dict_update k v d) = (map_of d)(k \<mapsto> v)"
  by (induction d) auto

lemma get_randomizers_loop_returns:
  "idx + length secs \<le> length gens \<Longrightarrow>
     \<exists>d t'. get_randomizers_loop E gens idx secs out t = Inr (d, t') \<and>
       dom (map_of d) = dom (map_of out) \<union> set secs"
proof (induction secs arbitrary: idx out t)
  case Nil
  then show ?case by simp
next
  case (Cons sec secs)
  obtain r t1 where r: "random (ec_order E (ec_group E (gens ! idx))) t = (r, t1)"
    by (cases "random (ec_order E (ec_group E (gens ! idx))) t")
  from Cons.prems have "Suc idx + length secs \<le> length gens" by simp
  from Cons.IH [OF this, of "dict_update sec r out" t1]
  obtain d t' where
    "get_randomizers_loop E gens (Suc idx) secs (dict_update sec r out) t1 = Inr (d, t')"
    "dom (map_of d) = dom (map_of (dict_update sec r out)) \<union> set secs"
    by blast
  with Cons.prems r show ?case
    by (auto simp: map_of_dict_update)
qed

lemma get_randomizers_returns:
  assumes "length (secret_names P) \<le> length (generators P)"
  shows "\<exists>d t'. get_randomizers E P t = Inr (d, t') \<and> dom (map_of d) = set (secret_names P)"
  using get_randomizers_loop_returns [of 0 "secret_names P" "generators P" E "[]" t] assms
  by (simp add: get_randomizers_def)

lemma map_err_dict_get_returns:
  assumes "set names \<subseteq> dom (map_of d)"
  shows "\<exists>vs. map_err (dict_get d) names = Inr vs"
proof -
  have "map_err (dict_get d) names = Inr (map (\<lambda>n. the (map_of d n)) names)"
    using assms by (intro map_err_all) (auto simp: dict_get_def)
  then show ?thesis ..
qed

text \<open>
  Claim C10 (simulated responses agree on shared secret names). When no dictionary of
  responses is given, \<^verbatim>\<open>simulate_proof\<close> reads the responses from the dictionary that
  \<^verbatim>\<open>get_randomizers\<close> returns, by secret name: the returned list has one response per secret
  name, and two positions with the same secret name have the same response. The
  simulation returns whenever the statement is well formed (as many names as generators,
  generators and left-hand side in one group that obeys the laws).
\<close>

theorem simulate_proof_shared_responses:
  "(\<forall>com c resp t'. simulate_proof E P None co t = Inr ((com, c, resp), t') \<longrightarrow>
      (\<exists>d t1. get_randomizers E P t = Inr (d, t1) \<and>
         map_err (dict_get d) (secret_names P) = Inr resp) \<and>
      length resp = length (secret_names P) \<and>
      (\<forall>i j. i < length (secret_names P) \<and> j < length (secret_names P) \<and>
         secret_names P ! i = secret_names P ! j \<longrightarrow> resp ! i = resp ! j)) \<and>
   (ec_laws E G \<and> generators P \<noteq> [] \<and> (\<forall>g\<in>set (generators P). ec_group E g = G) \<and>
    ec_group E (lhs P) = G \<and> length (secret_names P) = length (generators P) \<longrightarrow>
      (\<exists>com c resp t'. simulate_proof E P None co t = Inr ((com, c, resp), t')))"
proof (intro conjI allI impI)
  fix com c resp t'
  assume s: "simulate_proof E P None co t = Inr ((com, c, resp), t')"
  then obtain d t1 where g: "get_randomizers E P t = Inr (d, t1)"
    and m: "map_err (dict_get d) (secret_names P) = Inr resp"
    by (auto simp: simulate_proof_def split: sum.splits option.splits prod.splits)
  then show "\<exists>d t1. get_randomizers E P t = Inr (d, t1) \<and>
      map_err (dict_get d) (secret_names P) = Inr resp"
    by blast
  show "length resp = length (secret_names P)"
    by (rule map_err_length [OF m])
  fix i j
  assume ij: "i < length (secret_names P) \<and> j < length (secret_names P) \<and>
      secret_names P ! i = secret_names P ! j"
  then have "dict_get d (secret_names P ! i) = Inr (resp ! i)"
    and "dict_get d (secret_names P ! j) = Inr (resp ! j)"
    using map_err_nth [OF m, of i] map_err_nth [OF m, of j] by simp_all
  with ij show "resp ! i = resp ! j" by simp
next
  assume a: "ec_laws E G \<and> generators P \<noteq> [] \<and> (\<forall>g\<in>set (generators P). ec_group E g = G) \<and>
    ec_group E (lhs P) = G \<and> length (secret_names P) = length (generators P)"
  then obtain d t1 where g: "get_randomizers E P t = Inr (d, t1)"
    and dm: "dom (map_of d) = set (secret_names P)"
    using get_randomizers_returns [of P E t] by auto
  from dm obtain resp where m: "map_err (dict_get d) (secret_names P) = Inr resp"
    using map_err_dict_get_returns [of "secret_names P" d] by auto
  obtain c t2 where c: "(case co of None \<Rightarrow> chal_128bits t1 | Some c \<Rightarrow> (c, t1)) = (c, t2)"
    by (cases "case co of None \<Rightarrow> chal_128bits t1 | Some c \<Rightarrow> (c, t1)")
  from a have "recompute_commitment E P c resp =
      Inr (ec_add E (lin_comb E G resp (generators P)) (ec_mul E (- c) (lhs P)))"
    by (intro recompute_commitment_returns) simp_all
  with g m c show "\<exists>com c resp t'. simulate_proof E P None co t = Inr ((com, c, resp), t')"
    by (simp add: simulate_proof_def)
qed

definition S1 :: "(nat \<times> 7) DLRepProver" where
  "S1 = DLRepProver_init [(0, 1), (0, 3), (0, 2)] [''x'', ''y'', ''x''] [] (0, 4)"

lemma S1_simulate:
  "simulate_proof Z7_lib S1 None (Some 4) (\<lambda>n. int n + 2) =
     Inr (((0, 5), 4, [4, 3, 4]), \<lambda>n. int n + 5)"
  by (simp add: simulate_proof_def S1_def DLRepProver_init_def dict_get_def
        get_randomizers_def random_def add.commute
        recompute_commitment_def raise_powers_def pt_add_def Z7_lib_def)


theorem simulate_proof_shared_responses_witness:
  "simulate_proof Z7_lib S1 None (Some 4) (\<lambda>n. int n + 2) =
     Inr (((0, 5), 4, [4, 3, 4]), \<lambda>n. int n + 5) \<and>
   secret_names S1 ! 0 = secret_names S1 ! 2 \<and>
   length [4, 3, 4 :: int] = length (secret_names S1) \<and>
   [4, 3, 4 :: int] ! 0 = [4, 3, 4] ! 2"
proof -
  have n: "secret_names S1 ! 0 = secret_names S1 ! 2" "0 < length (secret_names S1)"
    "2 < length (secret_names S1)"
    by (simp_all add: S1_def DLRepProver_init_def)
  from simulate_proof_shared_responses [of Z7_lib S1 "Some 4" "\<lambda>n. int n + 2" 0] S1_simulate n
  show ?thesis by blast
qed

section \<open>Construction of the statement and of its parties\<close>

text \<open>A secret (\<^verbatim>\<open>Secret\<close>): a name and, on the prover's side, a value (the attribute
  \<^verbatim>\<open>value\<close> is the field \<open>val\<close>). The right-hand
  side of a statement (\<^verbatim>\<open>RightSide\<close>) is a list of secrets and the list of their points.\<close>

record Secret =
  name :: string
  val :: "int option"

record 'p RightSide =
  secrets :: "Secret list"
  pts :: "'p list"

definition initialize :: "'p ec_lib \<Rightarrow> 'p list \<Rightarrow> string list \<Rightarrow> 'p \<Rightarrow> error + 'p DLRepProof" where
  "initialize E gens names y =
     (if length gens = 0
      then Inl (Exception ''A list of generators must be of length at least one.'')
      else if length names \<noteq> length gens
      then Inl (Exception ''secret_names and generators must be of the same length'')
      else (let test_group = ec_group E (gens ! 0) in
            case find (\<lambda>g. ec_group E g \<noteq> test_group) gens of
              Some g \<Rightarrow>
                Inl (ExceptionGroup ''All generators should come from the same group'' (ec_group E g))
            | None \<Rightarrow>
                Inr \<lparr>generators = gens, secret_names = names, lhs = y, simulate = False\<rparr>))"

definition DLRepProof_init :: "'p ec_lib \<Rightarrow> 'p \<Rightarrow> 'p RightSide \<Rightarrow> error + 'p DLRepProof" where
  "DLRepProof_init E y rightSide = initialize E (pts rightSide) (map name (secrets rightSide)) y"

lemma find_group_None_iff:
  assumes "gens \<noteq> []"
  shows "find (\<lambda>g. ec_group E g \<noteq> ec_group E (gens ! 0)) gens = None \<longleftrightarrow>
     (\<forall>i j. i < length gens \<and> j < length gens \<longrightarrow> ec_group E (gens ! i) = ec_group E (gens ! j))"
proof
  assume "find (\<lambda>g. ec_group E g \<noteq> ec_group E (gens ! 0)) gens = None"
  then have a: "\<And>g. g \<in> set gens \<Longrightarrow> ec_group E g = ec_group E (gens ! 0)"
    by (auto simp: find_None_iff)
  show "\<forall>i j. i < length gens \<and> j < length gens \<longrightarrow> ec_group E (gens ! i) = ec_group E (gens ! j)"
  proof (intro allI impI)
    fix i j assume "i < length gens \<and> j < length gens"
    then have "gens ! i \<in> set gens" "gens ! j \<in> set gens" by simp_all
    then show "ec_group E (gens ! i) = ec_group E (gens ! j)"
      using a [of "gens ! i"] a [of "gens ! j"] by simp
  qed
next
  assume a: "\<forall>i j. i < length gens \<and> j < length gens \<longrightarrow> ec_group E (gens ! i) = ec_group E (gens ! j)"
  have "\<And>g. g \<in> set gens \<Longrightarrow> ec_group E g = ec_group E (gens ! 0)"
  proof -
    fix g assume "g \<in> set gens"
    then obtain i where i: "i < length gens" "gens ! i = g" by (auto simp: in_set_conv_nth)
    from assms have "0 < length gens" by simp
    with a i(1) have "ec_group E (gens ! i) = ec_group E (gens ! 0)" by blast
    with i(2) show "ec_group E g = ec_group E (gens ! 0)" by simp
  qed
  then show "find (\<lambda>g. ec_group E g \<noteq> ec_group E (gens ! 0)) gens = None"
    by (simp add: find_None_iff)
qed

text \<open>
  Claim C6 (validation at construction), as the code has it. \<^verbatim>\<open>initialize\<close> raises exactly
  when the list of generators is empty, when the secret names and the generators differ in
  number, or when two generators lie in different groups. Otherwise it succeeds and records
  the generators, the secret names and the left-hand side unchanged. The group of the
  left-hand side is not looked at: it plays no part in either direction.
\<close>

theorem initialize_validation:
  "((\<exists>e. initialize E gens names y = Inl e) \<longleftrightarrow>
      gens = [] \<or> length names \<noteq> length gens \<or>
      (\<exists>i j. i < length gens \<and> j < length gens \<and> ec_group E (gens ! i) \<noteq> ec_group E (gens ! j))) \<and>
   (gens \<noteq> [] \<and> length names = length gens \<and>
    (\<forall>i j. i < length gens \<and> j < length gens \<longrightarrow> ec_group E (gens ! i) = ec_group E (gens ! j)) \<longrightarrow>
      initialize E gens names y =
        Inr \<lparr>generators = gens, secret_names = names, lhs = y, simulate = False\<rparr>)"
proof -
  let ?same = "\<forall>i j. i < length gens \<and> j < length gens \<longrightarrow>
      ec_group E (gens ! i) = ec_group E (gens ! j)"
  let ?diff = "\<exists>i j. i < length gens \<and> j < length gens \<and>
      ec_group E (gens ! i) \<noteq> ec_group E (gens ! j)"
  let ?ok = "Inr \<lparr>generators = gens, secret_names = names, lhs = y, simulate = False\<rparr>"
  have sd: "?diff \<longleftrightarrow> \<not> ?same" by blast
  have 1: "gens = [] \<Longrightarrow> \<exists>e. initialize E gens names y = Inl e"
    by (simp add: initialize_def)
  have 2: "length names \<noteq> length gens \<Longrightarrow> \<exists>e. initialize E gens names y = Inl e"
    by (simp add: initialize_def)
  have 3: "initialize E gens names y = ?ok"
    if "gens \<noteq> []" "length names = length gens" ?same
  proof -
    have "find (\<lambda>g. ec_group E g \<noteq> ec_group E (gens ! 0)) gens = None"
      using find_group_None_iff [OF that(1), of E] that(3) by (rule iffD2)
    with that(1,2) show ?thesis by (simp add: initialize_def)
  qed
  have 4: "\<exists>e. initialize E gens names y = Inl e"
    if "gens \<noteq> []" "length names = length gens" "\<not> ?same"
  proof -
    have "find (\<lambda>g. ec_group E g \<noteq> ec_group E (gens ! 0)) gens \<noteq> None"
      using find_group_None_iff [OF that(1), of E] that(3) by blast
    then obtain g where "find (\<lambda>g. ec_group E g \<noteq> ec_group E (gens ! 0)) gens = Some g"
      by blast
    with that(1,2) show ?thesis by (simp add: initialize_def)
  qed
  have 5: "\<not> (\<exists>e. initialize E gens names y = Inl e)" if "initialize E gens names y = ?ok"
    using that by simp
  show ?thesis
    unfolding sd using 1 2 3 4 5 by blast
qed

theorem initialize_validation_witness:
  "initialize Z7_lib [(0, 1), (0, 3)] [''x'', ''y''] (0, 4) =
     Inr \<lparr>generators = [(0, 1), (0, 3)], secret_names = [''x'', ''y''], lhs = (0, 4), simulate = False\<rparr> \<and>
   (\<exists>e. initialize Z7_lib [(0, 1), (1, 3)] [''x'', ''y''] (0, 4) = Inl e)"
proof -
  have "\<exists>i j. i < length [(0, 1), (1, 3 :: 7)] \<and> j < length [(0, 1), (1, 3 :: 7)] \<and>
      ec_group Z7_lib ([(0, 1), (1, 3)] ! i) \<noteq> ec_group Z7_lib ([(0, 1), (1, 3)] ! j)"
    by (rule exI [of _ 0], rule exI [of _ 1]) (simp add: Z7_lib_def)
  with initialize_validation [of Z7_lib "[(0, 1), (1, 3)]" "[''x'', ''y'']" "(0, 4)"]
  have 2: "\<exists>e. initialize Z7_lib [(0, 1), (1, 3)] [''x'', ''y''] (0, 4) = Inl e"
    by blast
  have "\<forall>i j. i < length [(0, 1), (0, 3 :: 7)] \<and> j < length [(0, 1), (0, 3 :: 7)] \<longrightarrow>
      ec_group Z7_lib ([(0, 1), (0, 3)] ! i) = ec_group Z7_lib ([(0, 1), (0, 3)] ! j)"
    using find_group_None_iff [of "[(0, 1), (0, 3 :: 7)]" Z7_lib] by (simp add: Z7_lib_def)
  with initialize_validation [of Z7_lib "[(0, 1), (0, 3)]" "[''x'', ''y'']" "(0, 4)"]
  have "initialize Z7_lib [(0, 1), (0, 3)] [''x'', ''y''] (0, 4) =
     Inr \<lparr>generators = [(0, 1), (0, 3)], secret_names = [''x'', ''y''], lhs = (0, 4), simulate = False\<rparr>"
    by simp
  with 2 show ?thesis by blast
qed

text \<open>The claim as written also promises a failure when the left-hand side lies in
  another group than the generators. Here the generators are in group 0 and the left-hand
  side in group 1, and the construction succeeds.\<close>

theorem initialize_lhs_unchecked_counterexample:
  "ec_group Z7_lib (1, 4) \<noteq> ec_group Z7_lib (0, 1) \<and>
   initialize Z7_lib [(0, 1), (0, 3)] [''x'', ''y''] (1, 4) =
     Inr \<lparr>generators = [(0, 1), (0, 3)], secret_names = [''x'', ''y''], lhs = (1, 4), simulate = False\<rparr>"
  by (simp add: initialize_def Z7_lib_def)


text \<open>What a call can hand back where the caller expects a prover: the two classes of
  parties of the protocol.\<close>

datatype 'p party = Prover "'p DLRepProver" | Verifier "'p DLRepVerifier"

text \<open>
  \<^verbatim>\<open>get_prover\<close>. On the simulate path the source evaluates \<^verbatim>\<open>get_verifier()\<close>, the bare
  name and not \<^verbatim>\<open>self.get_verifier()\<close>: a method is not in the scope of a function body,
  and the module binds no such name, so the interpreter raises \<^verbatim>\<open>NameError\<close>.
  \<^verbatim>\<open>len(secrets_dict)\<close> is the number of entries of the dictionary. The final loop casts the
  values to big numbers, which the integers of the model already are.
\<close>

definition get_prover :: "'p DLRepProof \<Rightarrow> (string, int) dict \<Rightarrow> error + 'p party" where
  "get_prover S secrets_dict =
     (if simulate S = True \<or> secrets_dict = []
      then Inl (NameError ''get_verifier'')
      else if card (set (secret_names S)) \<noteq> length secrets_dict
      then Inl (Exception ''We expect as many secrets as different aliases'')
      else (let secret_names_set = set (secret_names S);
                secrets_keys = set (map fst secrets_dict);
                diff1 = secrets_keys - secret_names_set;
                diff2 = secret_names_set - secrets_keys in
            if card diff1 > 0 \<or> card diff2 > 0
            then Inl (Exception ''secrets do not match: those secrets should be checked'')
            else Inr (Prover (DLRepProver_init (generators S) (secret_names S) secrets_dict (lhs S)))))"

definition get_simulator :: "'p DLRepProof \<Rightarrow> 'p DLRepProver" where
  "get_simulator S = DLRepProver_init (generators S) (secret_names S) [] (lhs S)"

definition get_verifier :: "'p DLRepProof \<Rightarrow> 'p DLRepVerifier" where
  "get_verifier S = DLRepVerifier_init (generators S) (secret_names S) (lhs S)"

lemma get_prover_InrD:
  assumes "get_prover S sd = Inr r"
  shows "r = Prover (DLRepProver_init (generators S) (secret_names S) sd (lhs S))"
    and "\<not> simulate S" and "sd \<noteq> []"
  using assms by (simp_all add: get_prover_def Let_def split: if_splits)

lemma get_prover_returns:
  assumes "\<not> simulate S" "sd \<noteq> []" "distinct (map fst sd)" "set (map fst sd) = set (secret_names S)"
  shows "get_prover S sd = Inr (Prover (DLRepProver_init (generators S) (secret_names S) sd (lhs S)))"
proof -
  have "card (set (secret_names S)) = card (set (map fst sd))"
    by (simp only: assms(4))
  also have "\<dots> = length sd"
    using distinct_card [OF assms(3)] by simp
  finally show ?thesis
    using assms by (simp add: get_prover_def Let_def)
qed

text \<open>
  Claim C9 (\<^verbatim>\<open>get_prover\<close> returns a prover). Whenever \<^verbatim>\<open>get_prover\<close> returns a value, the
  value is a prover that carries the generators, the secret names and the left-hand side of
  the statement and the given secret values; it is never a verifier. On the simulate path
  (flag set, or empty dictionary of secrets) nothing is returned: the call raises
  \<^verbatim>\<open>NameError\<close>. And a prover is returned when the flag is not set and the keys of the
  dictionary are the secret names.
\<close>

theorem get_prover_returns_prover:
  "(\<forall>r. get_prover S sd = Inr r \<longrightarrow>
      (\<exists>p. r = Prover p \<and> generators p = generators S \<and> secret_names p = secret_names S \<and>
           secret_values p = sd \<and> lhs p = lhs S) \<and>
      (\<forall>v. r \<noteq> Verifier v)) \<and>
   (simulate S \<or> sd = [] \<longrightarrow> get_prover S sd = Inl (NameError ''get_verifier'')) \<and>
   (\<not> simulate S \<and> sd \<noteq> [] \<and> distinct (map fst sd) \<and> set (map fst sd) = set (secret_names S) \<longrightarrow>
      (\<exists>p. get_prover S sd = Inr (Prover p)))"
proof (intro conjI allI impI)
  fix r assume r: "get_prover S sd = Inr r"
  from get_prover_InrD(1) [OF r]
  show "\<exists>p. r = Prover p \<and> generators p = generators S \<and> secret_names p = secret_names S \<and>
           secret_values p = sd \<and> lhs p = lhs S"
    by (simp add: DLRepProver_init_def)
  fix v
  from get_prover_InrD(1) [OF r] show "r \<noteq> Verifier v" by simp
next
  assume "simulate S \<or> sd = []"
  then show "get_prover S sd = Inl (NameError ''get_verifier'')"
    by (auto simp: get_prover_def)
next
  assume "\<not> simulate S \<and> sd \<noteq> [] \<and> distinct (map fst sd) \<and> set (map fst sd) = set (secret_names S)"
  then show "\<exists>p. get_prover S sd = Inr (Prover p)"
    using get_prover_returns [of S sd] by blast
qed

definition St0 :: "(nat \<times> 7) DLRepProof" where
  "St0 = \<lparr>generators = [(0, 1), (0, 3)], secret_names = [''x'', ''y''], lhs = (0, 4), simulate = False\<rparr>"

lemma St0_get_prover:
  "get_prover St0 [(''x'', 3), (''y'', 5)] = Inr (Prover P0)"
  by (simp add: get_prover_def St0_def P0_def Let_def card_insert_if)

theorem get_prover_returns_prover_witness:
  "get_prover St0 [(''x'', 3), (''y'', 5)] = Inr (Prover P0) \<and>
   generators P0 = generators St0 \<and> secret_names P0 = secret_names St0 \<and>
   secret_values P0 = [(''x'', 3), (''y'', 5)] \<and> lhs P0 = lhs St0 \<and>
   get_prover St0 [] = Inl (NameError ''get_verifier'')"
  using get_prover_returns_prover [of St0 "[(''x'', 3), (''y'', 5)]"] St0_get_prover
    get_prover_returns_prover [of St0 "[]"]
  by auto

section \<open>And_proof.py: the consistency check\<close>

text \<open>\<^verbatim>\<open>mydict[word].append(idx)\<close> on a \<^verbatim>\<open>defaultdict(list)\<close>: a new word enters at the end
  with the list \<open>[idx]\<close>.\<close>

fun mydict_append :: "string \<Rightarrow> nat \<Rightarrow> (string, nat list) dict \<Rightarrow> (string, nat list) dict" where
  "mydict_append word idx [] = [(word, [idx])]"
| "mydict_append word idx (p # ps) =
     (if fst p = word then (word, snd p @ [idx]) # ps else p # mydict_append word idx ps)"

fun build_mydict :: "nat \<Rightarrow> string list \<Rightarrow> (string, nat list) dict \<Rightarrow> (string, nat list) dict" where
  "build_mydict idx [] mydict = mydict"
| "build_mydict idx (word # ws) mydict = build_mydict (Suc idx) ws (mydict_append word idx mydict)"

fun check_indices :: "'p ec_lib \<Rightarrow> 'p list \<Rightarrow> string \<Rightarrow> nat \<Rightarrow> nat list \<Rightarrow> error + unit" where
  "check_indices E gens word ref_group [] = Inr ()"
| "check_indices E gens word ref_group (index # rest) =
     (if index < length gens
      then (if ec_group E (gens ! index) \<noteq> ref_group
            then Inl (ExceptionWord
                   ''A shared secret has generators from different groups : secret'' word)
            else check_indices E gens word ref_group rest)
      else Inl IndexError)"

fun check_words :: "'p ec_lib \<Rightarrow> 'p list \<Rightarrow> (string, nat list) dict \<Rightarrow> error + unit" where
  "check_words E gens [] = Inr ()"
| "check_words E gens ((word, gen_idx) # rest) =
     (case gen_idx of
        [] \<Rightarrow> Inl IndexError
      | i0 # _ \<Rightarrow>
          (if i0 < length gens
           then (case check_indices E gens word (ec_group E (gens ! i0)) gen_idx of
                   Inl e \<Rightarrow> Inl e
                 | Inr _ \<Rightarrow> check_words E gens rest)
           else Inl IndexError))"

definition check_groups :: "'p ec_lib \<Rightarrow> string list \<Rightarrow> 'p list \<Rightarrow> error + bool" where
  "check_groups E list_of_secret_names list_of_generators =
     (let mydict = build_mydict 0 list_of_secret_names [] in
      case check_words E list_of_generators mydict of
        Inl e \<Rightarrow> Inl e
      | Inr _ \<Rightarrow> Inr True)"

text \<open>
  The children of an \<^verbatim>\<open>AndProof\<close> are proofs of any class that has the attribute
  \<^verbatim>\<open>group_generators\<close> and the method \<^verbatim>\<open>get_secret_names\<close>. Among the sources only
  \<^verbatim>\<open>AndProof\<close> itself has both, so a proof is either an \<^verbatim>\<open>AndProof\<close> (with its two
  children and the two lists its constructor stores) or a proof of another class, given by
  its list of generators and the list of names its \<^verbatim>\<open>get_secret_names\<close> returns.
  \<^verbatim>\<open>AndProof.get_secret_names\<close> extends in place the list that the first child returns; the
  model takes that list to be a copy, so that building an \<^verbatim>\<open>AndProof\<close> leaves its children
  as they are.
\<close>

datatype 'p Proof =
    Leaf "'p list" "string list"
  | AndProof "'p Proof" "'p Proof" "'p list" "string list"

fun group_generators :: "'p Proof \<Rightarrow> 'p list" where
  "group_generators (Leaf gens names) = gens"
| "group_generators (AndProof proof1 proof2 gens names) = gens"

fun get_secret_names :: "'p Proof \<Rightarrow> string list" where
  "get_secret_names (Leaf gens names) = names"
| "get_secret_names (AndProof proof1 proof2 gens names) =
     get_secret_names proof1 @ get_secret_names proof2"

definition get_generators :: "'p Proof \<Rightarrow> 'p Proof \<Rightarrow> 'p list" where
  "get_generators proof1 proof2 = group_generators proof1 @ group_generators proof2"

definition AndProof_init :: "'p ec_lib \<Rightarrow> 'p Proof \<Rightarrow> 'p Proof \<Rightarrow> error + 'p Proof" where
  "AndProof_init E proof1 proof2 =
     (let gens = get_generators proof1 proof2;
          names = get_secret_names proof1 @ get_secret_names proof2 in
      case check_groups E names gens of
        Inl e \<Rightarrow> Inl e
      | Inr _ \<Rightarrow> Inr (AndProof proof1 proof2 gens names))"

subsection \<open>What the dictionary of indices holds\<close>

definition indices_of :: "string \<Rightarrow> string list \<Rightarrow> nat list" where
  "indices_of w names = filter (\<lambda>i. names ! i = w) [0..<length names]"

lemma indices_of_snoc:
  "indices_of w (pre @ [word]) =
     indices_of w pre @ (if word = w then [length pre] else [])"
proof -
  have "filter (\<lambda>i. (pre @ [word]) ! i = w) [0..<length pre] =
      filter (\<lambda>i. pre ! i = w) [0..<length pre]"
    by (rule filter_cong) (simp_all add: nth_append)
  then show ?thesis by (simp add: indices_of_def)
qed

lemma set_indices_of: "set (indices_of w names) = {i. i < length names \<and> names ! i = w}"
  by (auto simp: indices_of_def)

lemma indices_of_nonempty: "w \<in> set names \<Longrightarrow> indices_of w names \<noteq> []"
proof -
  assume "w \<in> set names"
  then obtain i where "i < length names" "names ! i = w" by (auto simp: in_set_conv_nth)
  then have "i \<in> set (indices_of w names)" by (simp add: set_indices_of)
  then show ?thesis by auto
qed

lemma map_of_mydict_append:
  "map_of (mydict_append w i d) =
     (map_of d)(w \<mapsto> (case map_of d w of None \<Rightarrow> [] | Some js \<Rightarrow> js) @ [i])"
  by (induction d) (auto simp: fun_eq_iff)

lemma keys_mydict_append:
  "map fst (mydict_append w i d) = (if w \<in> set (map fst d) then map fst d else map fst d @ [w])"
  by (induction d) auto

definition mydict_inv :: "(string, nat list) dict \<Rightarrow> string list \<Rightarrow> bool" where
  "mydict_inv d pre \<longleftrightarrow>
     distinct (map fst d) \<and>
     (\<forall>w. map_of d w = (if w \<in> set pre then Some (indices_of w pre) else None))"

lemma mydict_inv_step:
  assumes "mydict_inv d pre"
  shows "mydict_inv (mydict_append word (length pre) d) (pre @ [word])"
proof -
  from assms have dist: "distinct (map fst d)"
    and m: "\<And>w. map_of d w = (if w \<in> set pre then Some (indices_of w pre) else None)"
    by (simp_all add: mydict_inv_def)
  have "distinct (map fst (mydict_append word (length pre) d))"
    using dist by (simp add: keys_mydict_append)
  moreover have "map_of (mydict_append word (length pre) d) w =
      (if w \<in> set (pre @ [word]) then Some (indices_of w (pre @ [word])) else None)" for w
  proof (cases "w = word")
    case True
    have "word \<notin> set pre \<Longrightarrow> indices_of word pre = []"
      by (auto simp: indices_of_def filter_empty_conv)
    then show ?thesis
      using True by (simp add: map_of_mydict_append m indices_of_snoc)
  next
    case False
    then show ?thesis
      by (simp add: map_of_mydict_append m indices_of_snoc)
  qed
  ultimately show ?thesis by (simp add: mydict_inv_def)
qed

lemma build_mydict_inv:
  "mydict_inv d pre \<Longrightarrow> mydict_inv (build_mydict (length pre) ws d) (pre @ ws)"
proof (induction ws arbitrary: d pre)
  case Nil
  then show ?case by simp
next
  case (Cons word ws)
  from Cons.IH [OF mydict_inv_step [OF Cons.prems], of word]
  show ?case by simp
qed

lemma build_mydict_entries:
  "(w, js) \<in> set (build_mydict 0 names []) \<longleftrightarrow> w \<in> set names \<and> js = indices_of w names"
proof -
  have "mydict_inv [] []" by (simp add: mydict_inv_def)
  from build_mydict_inv [OF this, of names]
  have inv: "mydict_inv (build_mydict 0 names []) names" by simp
  then have "distinct (map fst (build_mydict 0 names []))"
    by (simp add: mydict_inv_def)
  then have "(w, js) \<in> set (build_mydict 0 names []) \<longleftrightarrow>
      map_of (build_mydict 0 names []) w = Some js"
    by simp
  also have "\<dots> \<longleftrightarrow> w \<in> set names \<and> js = indices_of w names"
    using inv by (auto simp: mydict_inv_def)
  finally show ?thesis .
qed


subsection \<open>What the two loops of the check decide\<close>

lemma check_indices_Inr_iff:
  "check_indices E gens w r js = Inr () \<longleftrightarrow>
     (\<forall>i\<in>set js. i < length gens \<and> ec_group E (gens ! i) = r)"
  by (induction js) auto

lemma check_indices_Inl:
  "check_indices E gens w r js = Inl e \<Longrightarrow> \<forall>i\<in>set js. i < length gens \<Longrightarrow>
     e = ExceptionWord ''A shared secret has generators from different groups : secret'' w \<and>
     (\<exists>i\<in>set js. ec_group E (gens ! i) \<noteq> r)"
proof (induction js)
  case Nil
  then show ?case by simp
next
  case (Cons j js)
  from Cons.prems(2) have j: "j < length gens" and rest: "\<forall>i\<in>set js. i < length gens"
    by simp_all
  show ?case
  proof (cases "ec_group E (gens ! j) = r")
    case True
    with Cons.prems(1) j have "check_indices E gens w r js = Inl e" by simp
    from Cons.IH [OF this rest] show ?thesis by simp
  next
    case False
    with Cons.prems(1) j show ?thesis by simp
  qed
qed

definition good_entry :: "'p ec_lib \<Rightarrow> 'p list \<Rightarrow> nat list \<Rightarrow> bool" where
  "good_entry E gens js \<longleftrightarrow>
     js \<noteq> [] \<and> (\<forall>i\<in>set js. i < length gens \<and> ec_group E (gens ! i) = ec_group E (gens ! hd js))"

lemma check_words_Cons:
  "check_words E gens ((w, js) # rest) = Inr () \<longleftrightarrow>
     good_entry E gens js \<and> check_words E gens rest = Inr ()"
proof (cases js)
  case Nil
  then show ?thesis by (simp add: good_entry_def)
next
  case (Cons i0 js')
  let ?r = "ec_group E (gens ! i0)"
  have hd: "hd js = i0" and ne: "js \<noteq> []" and mem: "i0 \<in> set js"
    by (simp_all add: Cons)
  have unfold: "check_words E gens ((w, js) # rest) =
      (if i0 < length gens
       then (case check_indices E gens w ?r js of
               Inl e \<Rightarrow> Inl e
             | Inr u \<Rightarrow> check_words E gens rest)
       else Inl IndexError)"
    unfolding Cons by (simp only: check_words.simps list.case)
  have good: "good_entry E gens js \<longleftrightarrow> check_indices E gens w ?r js = Inr ()"
    unfolding good_entry_def hd check_indices_Inr_iff using ne by simp
  show ?thesis
  proof (cases "check_indices E gens w ?r js")
    case (Inl e)
    then have "\<not> good_entry E gens js" by (simp add: good)
    moreover have "check_words E gens ((w, js) # rest) \<noteq> Inr ()"
      unfolding unfold using Inl by simp
    ultimately show ?thesis by simp
  next
    case (Inr u)
    then have g: "good_entry E gens js" by (simp add: good)
    then have "i0 < length gens"
      using mem unfolding good_entry_def by blast
    then have "check_words E gens ((w, js) # rest) = check_words E gens rest"
      unfolding unfold using Inr by simp
    with g show ?thesis by simp
  qed
qed

lemma check_words_Inr_iff:
  "check_words E gens d = Inr () \<longleftrightarrow> (\<forall>(w, js)\<in>set d. good_entry E gens js)"
proof (induction d)
  case Nil
  show ?case by simp
next
  case (Cons p d)
  obtain w js where p: "p = (w, js)" by (cases p)
  show ?case
    unfolding p check_words_Cons Cons.IH by simp
qed

lemma check_words_Inl:
  "check_words E gens d = Inl e \<Longrightarrow>
   \<forall>(w, js)\<in>set d. js \<noteq> [] \<and> (\<forall>i\<in>set js. i < length gens) \<Longrightarrow>
     \<exists>(w, js)\<in>set d.
        e = ExceptionWord ''A shared secret has generators from different groups : secret'' w \<and>
        (\<exists>i\<in>set js. ec_group E (gens ! i) \<noteq> ec_group E (gens ! hd js))"
proof (induction d)
  case Nil
  then show ?case by simp
next
  case (Cons p d)
  obtain w js where p: "p = (w, js)" by (cases p)
  from Cons.prems(2) p have ne: "js \<noteq> []" and rng: "\<forall>i\<in>set js. i < length gens"
    and rest: "\<forall>(w, js)\<in>set d. js \<noteq> [] \<and> (\<forall>i\<in>set js. i < length gens)"
    by simp_all
  from ne obtain i0 js' where js: "js = i0 # js'"
    by (cases js) simp_all
  from rng js have i0: "i0 < length gens" by simp
  have hd: "hd js = i0" by (simp add: js)
  show ?case
  proof (cases "check_indices E gens w (ec_group E (gens ! i0)) js")
    case (Inl e')
    have "check_words E gens (p # d) = Inl e'"
      unfolding p js using Inl i0 unfolding js by (simp only: check_words.simps list.case if_True sum.case)
    with Cons.prems(1) have "e' = e" by simp
    with check_indices_Inl [OF Inl rng]
    have "e = ExceptionWord ''A shared secret has generators from different groups : secret'' w \<and>
        (\<exists>i\<in>set js. ec_group E (gens ! i) \<noteq> ec_group E (gens ! hd js))"
      by (simp only: hd)
    then have "\<exists>(w, js)\<in>{p}.
        e = ExceptionWord ''A shared secret has generators from different groups : secret'' w \<and>
        (\<exists>i\<in>set js. ec_group E (gens ! i) \<noteq> ec_group E (gens ! hd js))"
      by (simp only: p bex_simps split_conv singleton_iff simp_thms)
    then show ?thesis by (simp only: list.set bex_Un insert_is_Un [of p "set d"] simp_thms)
  next
    case (Inr u)
    have "check_words E gens (p # d) = check_words E gens d"
      unfolding p js using Inr i0 unfolding js by (simp only: check_words.simps list.case if_True sum.case)
    with Cons.prems(1) have "check_words E gens d = Inl e" by simp
    from Cons.IH [OF this rest]
    show ?thesis by (simp only: list.set bex_Un insert_is_Un [of p "set d"] simp_thms)
  qed
qed


lemma check_groups_entries:
  assumes "(w, js) \<in> set (build_mydict 0 names [])"
  shows "js \<noteq> []" and "set js = {i. i < length names \<and> names ! i = w}" and "hd js \<in> set js"
proof -
  from assms have w: "w \<in> set names" and js: "js = indices_of w names"
    by (simp_all add: build_mydict_entries)
  show "js \<noteq> []" unfolding js by (rule indices_of_nonempty [OF w])
  then show "hd js \<in> set js" by simp
  show "set js = {i. i < length names \<and> names ! i = w}"
    unfolding js by (rule set_indices_of)
qed

lemma check_groups_ok:
  assumes len: "length names \<le> length gens"
    and same: "\<And>i j. i < length names \<Longrightarrow> j < length names \<Longrightarrow> names ! i = names ! j \<Longrightarrow>
        ec_group E (gens ! i) = ec_group E (gens ! j)"
  shows "check_groups E names gens = Inr True"
proof -
  have "good_entry E gens js" if "(w, js) \<in> set (build_mydict 0 names [])" for w js
  proof -
    note e = check_groups_entries [OF that]
    have "i < length gens \<and> ec_group E (gens ! i) = ec_group E (gens ! hd js)"
      if "i \<in> set js" for i
    proof -
      from that e(2) have i: "i < length names" "names ! i = w" by simp_all
      from e(3) e(2) have h: "hd js < length names" "names ! hd js = w" by simp_all
      from i h same [of i "hd js"] len show ?thesis by simp
    qed
    with e(1) show ?thesis unfolding good_entry_def by blast
  qed
  then have "check_words E gens (build_mydict 0 names []) = Inr ()"
    unfolding check_words_Inr_iff by blast
  then show ?thesis by (simp add: check_groups_def)
qed

lemma check_groups_bad:
  assumes len: "length names \<le> length gens"
    and i: "i < length names" and j: "j < length names" and eq: "names ! i = names ! j"
    and diff: "ec_group E (gens ! i) \<noteq> ec_group E (gens ! j)"
  shows "\<exists>w i j. check_groups E names gens =
        Inl (ExceptionWord ''A shared secret has generators from different groups : secret'' w) \<and>
      i < length names \<and> j < length names \<and> names ! i = w \<and> names ! j = w \<and>
      ec_group E (gens ! i) \<noteq> ec_group E (gens ! j)"
proof -
  let ?d = "build_mydict 0 names []"
  let ?w = "names ! i"
  have ent: "(?w, indices_of ?w names) \<in> set ?d"
    using i by (simp add: build_mydict_entries)
  have "check_words E gens ?d \<noteq> Inr ()"
  proof
    assume "check_words E gens ?d = Inr ()"
    with ent have g: "good_entry E gens (indices_of ?w names)"
      unfolding check_words_Inr_iff by blast
    have "i \<in> set (indices_of ?w names)" "j \<in> set (indices_of ?w names)"
      using i j eq by (simp_all add: set_indices_of)
    with g have "ec_group E (gens ! i) = ec_group E (gens ! hd (indices_of ?w names))"
      and "ec_group E (gens ! j) = ec_group E (gens ! hd (indices_of ?w names))"
      unfolding good_entry_def by blast+
    with diff show False by simp
  qed
  then obtain e where e: "check_words E gens ?d = Inl e"
    by (cases "check_words E gens ?d") simp_all
  have rng: "\<forall>(w, js)\<in>set ?d. js \<noteq> [] \<and> (\<forall>i\<in>set js. i < length gens)"
  proof (intro ballI, clarify)
    fix w js assume m: "(w, js) \<in> set ?d"
    note en = check_groups_entries [OF m]
    from en(2) len have "\<forall>i\<in>set js. i < length gens" by auto
    with en(1) show "js \<noteq> [] \<and> (\<forall>i\<in>set js. i < length gens)" by simp
  qed
  from check_words_Inl [OF e rng] obtain w js k where m: "(w, js) \<in> set ?d"
    and ew: "e = ExceptionWord ''A shared secret has generators from different groups : secret'' w"
    and k: "k \<in> set js" and kd: "ec_group E (gens ! k) \<noteq> ec_group E (gens ! hd js)"
    by blast
  note en = check_groups_entries [OF m]
  from k en(2) have k': "k < length names" "names ! k = w" by simp_all
  from en(3) en(2) have h': "hd js < length names" "names ! hd js = w" by simp_all
  have "check_groups E names gens = Inl e"
    using e by (simp add: check_groups_def)
  with ew k' h' kd show ?thesis by blast
qed


text \<open>
  Claim C2 (group coherence is enforced when an \<^verbatim>\<open>AndProof\<close> is built). The constructor runs
  \<^verbatim>\<open>check_groups\<close> on the concatenated secret names and the concatenated generators of the
  two children (lists of one length). It raises if and only if some secret name stands at
  two indices whose generators have different groups, and the exception it raises names
  such a secret. When all the generators of every name have one group, \<^verbatim>\<open>check_groups\<close>
  returns \<^verbatim>\<open>True\<close> and the constructor returns the \<^verbatim>\<open>AndProof\<close> with the two merged
  lists.
\<close>

theorem AndProof_init_group_check:
  assumes len: "length (get_secret_names proof1 @ get_secret_names proof2) =
      length (group_generators proof1 @ group_generators proof2)"
  shows "((\<exists>e. AndProof_init E proof1 proof2 = Inl e) \<longleftrightarrow>
       (\<exists>i j. i < length (get_secret_names proof1 @ get_secret_names proof2) \<and>
              j < length (get_secret_names proof1 @ get_secret_names proof2) \<and>
              (get_secret_names proof1 @ get_secret_names proof2) ! i =
                (get_secret_names proof1 @ get_secret_names proof2) ! j \<and>
              ec_group E ((group_generators proof1 @ group_generators proof2) ! i) \<noteq>
                ec_group E ((group_generators proof1 @ group_generators proof2) ! j))) \<and>
    (\<forall>e. AndProof_init E proof1 proof2 = Inl e \<longrightarrow>
       (\<exists>w i j. e = ExceptionWord
                   ''A shared secret has generators from different groups : secret'' w \<and>
              i < length (get_secret_names proof1 @ get_secret_names proof2) \<and>
              j < length (get_secret_names proof1 @ get_secret_names proof2) \<and>
              (get_secret_names proof1 @ get_secret_names proof2) ! i = w \<and>
              (get_secret_names proof1 @ get_secret_names proof2) ! j = w \<and>
              ec_group E ((group_generators proof1 @ group_generators proof2) ! i) \<noteq>
                ec_group E ((group_generators proof1 @ group_generators proof2) ! j))) \<and>
    ((\<forall>i j. i < length (get_secret_names proof1 @ get_secret_names proof2) \<and>
            j < length (get_secret_names proof1 @ get_secret_names proof2) \<and>
            (get_secret_names proof1 @ get_secret_names proof2) ! i =
              (get_secret_names proof1 @ get_secret_names proof2) ! j \<longrightarrow>
            ec_group E ((group_generators proof1 @ group_generators proof2) ! i) =
              ec_group E ((group_generators proof1 @ group_generators proof2) ! j)) \<longrightarrow>
       check_groups E (get_secret_names proof1 @ get_secret_names proof2)
         (group_generators proof1 @ group_generators proof2) = Inr True \<and>
       AndProof_init E proof1 proof2 =
         Inr (AndProof proof1 proof2 (group_generators proof1 @ group_generators proof2)
                (get_secret_names proof1 @ get_secret_names proof2)))"
proof -
  define names where "names = get_secret_names proof1 @ get_secret_names proof2"
  define gens where "gens = group_generators proof1 @ group_generators proof2"
  define init where "init = AndProof_init E proof1 proof2"
  define bad where "bad \<longleftrightarrow> (\<exists>i j. i < length names \<and> j < length names \<and>
      names ! i = names ! j \<and> ec_group E (gens ! i) \<noteq> ec_group E (gens ! j))"
  define named where "named = (\<lambda>e. \<exists>w i j. e = ExceptionWord
      ''A shared secret has generators from different groups : secret'' w \<and>
      i < length names \<and> j < length names \<and> names ! i = w \<and> names ! j = w \<and>
      ec_group E (gens ! i) \<noteq> ec_group E (gens ! j))"
  from len have le: "length names \<le> length gens" by (simp add: names_def gens_def)
  have init: "init =
      (case check_groups E names gens of
         Inl e \<Rightarrow> Inl e
       | Inr u \<Rightarrow> Inr (AndProof proof1 proof2 gens names))"
    unfolding init_def names_def gens_def AndProof_init_def get_generators_def Let_def
    by (rule refl)
  have nbad: "(\<forall>i j. i < length names \<and> j < length names \<and> names ! i = names ! j \<longrightarrow>
      ec_group E (gens ! i) = ec_group E (gens ! j)) \<longleftrightarrow> \<not> bad"
    unfolding bad_def by blast
  have B: "\<exists>e. init = Inl e \<and> named e" if bad
  proof -
    from that obtain i j where "i < length names" "j < length names" "names ! i = names ! j"
      and "ec_group E (gens ! i) \<noteq> ec_group E (gens ! j)"
      unfolding bad_def by blast
    from check_groups_bad [OF le this]
    obtain e where "check_groups E names gens = Inl e" and "named e"
      unfolding named_def by blast
    then have "init = Inl e \<and> named e" by (simp add: init)
    then show ?thesis ..
  qed
  have G: "check_groups E names gens = Inr True" if "\<not> bad"
  proof (rule check_groups_ok [OF le])
    fix i j assume "i < length names" "j < length names" "names ! i = names ! j"
    with that show "ec_group E (gens ! i) = ec_group E (gens ! j)"
      unfolding bad_def by blast
  qed
  have I: "init = Inr (AndProof proof1 proof2 gens names)" if "\<not> bad"
    using G [OF that] by (simp add: init)
  have 1: "(\<exists>e. init = Inl e) \<longleftrightarrow> bad"
  proof (cases bad)
    case True
    with B show ?thesis by blast
  next
    case False
    with I [OF False] show ?thesis by simp
  qed
  have 2: "\<forall>e. init = Inl e \<longrightarrow> named e"
  proof (cases bad)
    case True
    from B [OF True] obtain e0 where "init = Inl e0" "named e0" by blast
    then show ?thesis by simp
  next
    case False
    with I [OF False] show ?thesis by simp
  qed
  have 3: "\<not> bad \<longrightarrow> check_groups E names gens = Inr True \<and>
      init = Inr (AndProof proof1 proof2 gens names)"
    using G I by blast
  from 1 2 3 have "((\<exists>e. init = Inl e) \<longleftrightarrow> bad) \<and> (\<forall>e. init = Inl e \<longrightarrow> named e) \<and>
      (\<not> bad \<longrightarrow> check_groups E names gens = Inr True \<and>
        init = Inr (AndProof proof1 proof2 gens names))"
    by (intro conjI)
  then show ?thesis
    unfolding nbad [symmetric] unfolding bad_def named_def init_def names_def gens_def .
qed

theorem AndProof_init_group_check_witness:
  "AndProof_init Z7_lib (Leaf [(0, 1), (0, 3)] [''x'', ''y'']) (Leaf [(0, 2), (0, 5)] [''x'', ''z'']) =
     Inr (AndProof (Leaf [(0, 1), (0, 3)] [''x'', ''y'']) (Leaf [(0, 2), (0, 5)] [''x'', ''z''])
            [(0, 1), (0, 3), (0, 2), (0, 5)] [''x'', ''y'', ''x'', ''z'']) \<and>
   (\<exists>w. AndProof_init Z7_lib (Leaf [(0, 1), (0, 3)] [''x'', ''y''])
          (Leaf [(1, 2), (0, 5)] [''x'', ''z'']) =
        Inl (ExceptionWord ''A shared secret has generators from different groups : secret'' w))"
proof -
  let ?p1 = "Leaf [(0, 1), (0, 3 :: 7)] [''x'', ''y'']"
  let ?p2 = "Leaf [(0, 2), (0, 5 :: 7)] [''x'', ''z'']"
  let ?p3 = "Leaf [(1, 2), (0, 5 :: 7)] [''x'', ''z'']"
  have g: "\<forall>i. i < 4 \<longrightarrow> ec_group Z7_lib ([(0, 1), (0, 3), (0, 2), (0, 5 :: 7)] ! i) = 0"
  proof (intro allI impI)
    fix i :: nat assume "i < 4"
    then have "[(0, 1), (0, 3), (0, 2), (0 :: nat, 5 :: 7)] ! i \<in> set [(0, 1), (0, 3), (0, 2), (0, 5)]"
      by (intro nth_mem) simp
    then show "ec_group Z7_lib ([(0, 1), (0, 3), (0, 2), (0, 5 :: 7)] ! i) = 0"
      by (auto simp: Z7_lib_def)
  qed
  have ok: "AndProof_init Z7_lib ?p1 ?p2 =
      Inr (AndProof ?p1 ?p2 [(0, 1), (0, 3), (0, 2), (0, 5)] [''x'', ''y'', ''x'', ''z''])"
    using AndProof_init_group_check [of ?p1 ?p2 Z7_lib] g by simp
  have "(0 :: nat) < length (get_secret_names ?p1 @ get_secret_names ?p3) \<and>
      (2 :: nat) < length (get_secret_names ?p1 @ get_secret_names ?p3) \<and>
      (get_secret_names ?p1 @ get_secret_names ?p3) ! 0 =
        (get_secret_names ?p1 @ get_secret_names ?p3) ! 2 \<and>
      ec_group Z7_lib ((group_generators ?p1 @ group_generators ?p3) ! 0) \<noteq>
        ec_group Z7_lib ((group_generators ?p1 @ group_generators ?p3) ! 2)"
    by (simp add: Z7_lib_def)
  then have bad: "\<exists>i j. i < length (get_secret_names ?p1 @ get_secret_names ?p3) \<and>
      j < length (get_secret_names ?p1 @ get_secret_names ?p3) \<and>
      (get_secret_names ?p1 @ get_secret_names ?p3) ! i =
        (get_secret_names ?p1 @ get_secret_names ?p3) ! j \<and>
      ec_group Z7_lib ((group_generators ?p1 @ group_generators ?p3) ! i) \<noteq>
        ec_group Z7_lib ((group_generators ?p1 @ group_generators ?p3) ! j)"
    by blast
  have len: "length (get_secret_names ?p1 @ get_secret_names ?p3) =
      length (group_generators ?p1 @ group_generators ?p3)"
    by simp
  from AndProof_init_group_check [OF len, of Z7_lib] bad
  have "\<exists>w. AndProof_init Z7_lib ?p1 ?p3 =
      Inl (ExceptionWord ''A shared secret has generators from different groups : secret'' w)"
    by blast
  with ok show ?thesis by (rule conjI)
qed

section \<open>And_proof.py: the prover and the verifier\<close>

text \<open>
  The two provers of an \<^verbatim>\<open>AndProofProver\<close> are provers of any class: a \<^verbatim>\<open>DLRepProver\<close> or
  again an \<^verbatim>\<open>AndProofProver\<close>. A commitment is a point (of a \<^verbatim>\<open>DLRepProver\<close>) or an
  \<^verbatim>\<open>AndProofCommitment\<close> of two commitments; a response is a list of numbers or an
  \<^verbatim>\<open>AndProofResponse\<close> of two responses.
\<close>

datatype 'p prover =
    DLRepP "'p DLRepProver"
  | AndProofProver "'p prover" "'p prover"

datatype 'p commitment =
    PointCommitment 'p
  | AndProofCommitment "'p commitment" "'p commitment"

datatype response =
    ListResponse "int list"
  | AndProofResponse response response

text \<open>The method calls \<^verbatim>\<open>prover.get_randomizers()\<close>, \<^verbatim>\<open>prover.commit(randomizers_dict)\<close>
  and \<^verbatim>\<open>prover.compute_response(challenge)\<close> dispatch on the class of the prover.\<close>

fun prover_get_randomizers ::
  "'p ec_lib \<Rightarrow> 'p prover \<Rightarrow> tape \<Rightarrow> error + ((string, int) dict \<times> tape)" where
  "prover_get_randomizers E (DLRepP P) t = get_randomizers E P t"
| "prover_get_randomizers E (AndProofProver prover1 prover2) t =
     (case prover_get_randomizers E prover1 t of
        Inl e \<Rightarrow> Inl e
      | Inr (random_vals, t1) \<Rightarrow>
          (case prover_get_randomizers E prover2 t1 of
             Inl e \<Rightarrow> Inl e
           | Inr (vals2, t2) \<Rightarrow> Inr (dict_update_all random_vals vals2, t2)))"

fun prover_commit ::
  "'p ec_lib \<Rightarrow> 'p prover \<Rightarrow> (string, int) dict option \<Rightarrow> tape
     \<Rightarrow> error + ('p commitment \<times> 'p prover \<times> tape)" where
  "prover_commit E (DLRepP P) randomizers_dict t =
     (case commit E P randomizers_dict t of
        Inl e \<Rightarrow> Inl e
      | Inr (c, P', t') \<Rightarrow> Inr (PointCommitment c, DLRepP P', t'))"
| "prover_commit E (AndProofProver prover1 prover2) randomizers_dict t =
     (case (case randomizers_dict of
              None \<Rightarrow> prover_get_randomizers E (AndProofProver prover1 prover2) t
            | Some d \<Rightarrow> Inr (d, t)) of
        Inl e \<Rightarrow> Inl e
      | Inr (randomizers_dict', t1) \<Rightarrow>
          (case prover_commit E prover1 (Some randomizers_dict') t1 of
             Inl e \<Rightarrow> Inl e
           | Inr (c1, prover1', t2) \<Rightarrow>
               (case prover_commit E prover2 (Some randomizers_dict') t2 of
                  Inl e \<Rightarrow> Inl e
                | Inr (c2, prover2', t3) \<Rightarrow>
                    Inr (AndProofCommitment c1 c2, AndProofProver prover1' prover2', t3))))"

fun prover_compute_response :: "'p prover \<Rightarrow> int \<Rightarrow> error + response" where
  "prover_compute_response (DLRepP P) challenge =
     (case compute_response P challenge of Inl e \<Rightarrow> Inl e | Inr r \<Rightarrow> Inr (ListResponse r))"
| "prover_compute_response (AndProofProver prover1 prover2) challenge =
     (case prover_compute_response prover1 challenge of
        Inl e \<Rightarrow> Inl e
      | Inr r1 \<Rightarrow>
          (case prover_compute_response prover2 challenge of
             Inl e \<Rightarrow> Inl e
           | Inr r2 \<Rightarrow> Inr (AndProofResponse r1 r2)))"

text \<open>The terms a prover has committed: each secret name of each \<^verbatim>\<open>DLRepProver\<close> in it,
  with the randomizer \<open>ks[i]\<close> its \<^verbatim>\<open>commit\<close> stored for the term.\<close>

fun committed_terms :: "'p prover \<Rightarrow> (string \<times> int) list" where
  "committed_terms (DLRepP P) = (case ks P of None \<Rightarrow> [] | Some ks' \<Rightarrow> zip (secret_names P) ks')"
| "committed_terms (AndProofProver prover1 prover2) =
     committed_terms prover1 @ committed_terms prover2"

lemma commit_InrD:
  assumes "commit E P rdo t = Inr (c, P', t')"
  shows "\<exists>d ks'. (case rdo of None \<Rightarrow> get_randomizers E P t | Some d' \<Rightarrow> Inr (d', t)) = Inr (d, t') \<and>
      map_err (dict_get d) (secret_names P) = Inr ks' \<and>
      ks P' = Some ks' \<and> secret_names P' = secret_names P"
  using assms
  by (auto simp: commit_def Let_def split: if_splits list.splits sum.splits prod.splits)

lemma map_err_dict_get_zip:
  assumes "map_err (dict_get d) names = Inr vs" and "(n, k) \<in> set (zip names vs)"
  shows "map_of d n = Some k"
proof -
  from assms(2) obtain i where i: "i < length names" "i < length vs" "names ! i = n" "vs ! i = k"
    by (auto simp: set_zip)
  from map_err_nth [OF assms(1) i(1)] i(3,4) have "dict_get d n = Inr k" by simp
  then show ?thesis by (simp add: dict_get_def split: option.splits)
qed

lemma prover_commit_Some:
  "prover_commit E p (Some d) t = Inr (c, p', t') \<Longrightarrow>
     t' = t \<and> (\<forall>(n, k)\<in>set (committed_terms p'). map_of d n = Some k)"
proof (induction p arbitrary: c p' t t')
  case (DLRepP P)
  from DLRepP.prems obtain c0 P' where c: "commit E P (Some d) t = Inr (c0, P', t')"
    and p': "p' = DLRepP P'"
    by (auto split: sum.splits)
  from commit_InrD [OF c] obtain ks' where "t' = t"
    and m: "map_err (dict_get d) (secret_names P) = Inr ks'"
    and k: "ks P' = Some ks'" "secret_names P' = secret_names P"
    by auto
  then show ?case
    using map_err_dict_get_zip [OF m] by (auto simp: p')
next
  case (AndProofProver p1 p2)
  from AndProofProver.prems obtain c1 p1' t2 c2 p2' where
    1: "prover_commit E p1 (Some d) t = Inr (c1, p1', t2)" and
    2: "prover_commit E p2 (Some d) t2 = Inr (c2, p2', t')" and
    p': "p' = AndProofProver p1' p2'"
    by (auto split: sum.splits)
  from AndProofProver.IH(1) [OF 1] AndProofProver.IH(2) [OF 2]
  show ?case by (auto simp: p')
qed


text \<open>
  Claim C5 (one randomizer per shared secret across the conjuncts). Whenever the
  \<^verbatim>\<open>commit\<close> of an \<^verbatim>\<open>AndProofProver\<close> returns, there is one dictionary of randomizers (the one
  given, or the merged one of \<^verbatim>\<open>get_randomizers\<close> when none is given) that was passed to the
  \<^verbatim>\<open>commit\<close> of both children; every committed term of either child has the randomizer
  that the dictionary holds for the term's secret name; hence two terms of different
  conjuncts with the same secret name are committed with the same randomizer.
\<close>

theorem AndProofProver_commit_shares_randomizers:
  assumes "prover_commit E (AndProofProver prover1 prover2) rdo t = Inr (c, p', t')"
  shows "\<exists>d c1 c2 p1' p2'.
     (case rdo of
        None \<Rightarrow> prover_get_randomizers E (AndProofProver prover1 prover2) t
      | Some d' \<Rightarrow> Inr (d', t)) = Inr (d, t') \<and>
     prover_commit E prover1 (Some d) t' = Inr (c1, p1', t') \<and>
     prover_commit E prover2 (Some d) t' = Inr (c2, p2', t') \<and>
     c = AndProofCommitment c1 c2 \<and> p' = AndProofProver p1' p2' \<and>
     (\<forall>(n, k)\<in>set (committed_terms p1'). map_of d n = Some k) \<and>
     (\<forall>(n, k)\<in>set (committed_terms p2'). map_of d n = Some k) \<and>
     (\<forall>(n1, k1)\<in>set (committed_terms p1'). \<forall>(n2, k2)\<in>set (committed_terms p2').
        n1 = n2 \<longrightarrow> k1 = k2)"
proof -
  from assms obtain d t1 c1 p1' t2 c2 p2' where
    d: "(case rdo of
           None \<Rightarrow> prover_get_randomizers E (AndProofProver prover1 prover2) t
         | Some d' \<Rightarrow> Inr (d', t)) = Inr (d, t1)" and
    1: "prover_commit E prover1 (Some d) t1 = Inr (c1, p1', t2)" and
    2: "prover_commit E prover2 (Some d) t2 = Inr (c2, p2', t')" and
    c: "c = AndProofCommitment c1 c2" and p': "p' = AndProofProver p1' p2'"
    by (auto split: sum.splits)
  from prover_commit_Some [OF 1] have t2: "t2 = t1"
    and m1: "\<forall>(n, k)\<in>set (committed_terms p1'). map_of d n = Some k" by simp_all
  from prover_commit_Some [OF 2] have t': "t' = t2"
    and m2: "\<forall>(n, k)\<in>set (committed_terms p2'). map_of d n = Some k" by simp_all
  have sh: "\<forall>(n1, k1)\<in>set (committed_terms p1'). \<forall>(n2, k2)\<in>set (committed_terms p2').
      n1 = n2 \<longrightarrow> k1 = k2"
  proof (intro ballI, clarify)
    fix n k1 k2
    assume "(n, k1) \<in> set (committed_terms p1')" "(n, k2) \<in> set (committed_terms p2')"
    with m1 m2 have "map_of d n = Some k1" "map_of d n = Some k2" by blast+
    then show "k1 = k2" by simp
  qed
  from d 1 2 have "(case rdo of
        None \<Rightarrow> prover_get_randomizers E (AndProofProver prover1 prover2) t
      | Some d' \<Rightarrow> Inr (d', t)) = Inr (d, t')"
    "prover_commit E prover1 (Some d) t' = Inr (c1, p1', t')"
    "prover_commit E prover2 (Some d) t' = Inr (c2, p2', t')"
    unfolding t' t2 by simp_all
  with c p' m1 m2 sh show ?thesis by blast
qed

text \<open>Two provers that share the secret \<open>x\<close>, to run the model on.\<close>

definition A1 :: "(nat \<times> 7) DLRepProver" where
  "A1 = DLRepProver_init [(0, 1), (0, 3)] [''x'', ''y''] [(''x'', 3), (''y'', 5)] (0, 4)"

definition A2 :: "(nat \<times> 7) DLRepProver" where
  "A2 = DLRepProver_init [(0, 2), (0, 5)] [''x'', ''z''] [(''x'', 3), (''z'', 6)] (0, 1)"

lemma A12_randomizers:
  "prover_get_randomizers Z7_lib (AndProofProver (DLRepP A1) (DLRepP A2)) (\<lambda>n. int n + 2) =
     Inr ([(''x'', 4), (''y'', 3), (''z'', 5)], \<lambda>n. int n + 6)"
  by (simp add: A1_def A2_def DLRepProver_init_def get_randomizers_def random_def
        dict_update_all_def Z7_lib_def add.commute)

lemma A12_commit:
  "prover_commit Z7_lib (AndProofProver (DLRepP A1) (DLRepP A2)) None (\<lambda>n. int n + 2) =
     Inr (AndProofCommitment (PointCommitment (0, 6)) (PointCommitment (0, 5)),
          AndProofProver (DLRepP (A1\<lparr>group_order := Some 7, ks := Some [4, 3]\<rparr>))
            (DLRepP (A2\<lparr>group_order := Some 7, ks := Some [4, 5]\<rparr>)),
          \<lambda>n. int n + 6)"
  unfolding prover_commit.simps A12_randomizers
  by (simp add: A1_def A2_def DLRepProver_init_def commit_def dict_get_def pt_add_def Z7_lib_def)

theorem AndProofProver_commit_shares_randomizers_witness:
  "prover_commit Z7_lib (AndProofProver (DLRepP A1) (DLRepP A2)) None (\<lambda>n. int n + 2) =
     Inr (AndProofCommitment (PointCommitment (0, 6)) (PointCommitment (0, 5)),
          AndProofProver (DLRepP (A1\<lparr>group_order := Some 7, ks := Some [4, 3]\<rparr>))
            (DLRepP (A2\<lparr>group_order := Some 7, ks := Some [4, 5]\<rparr>)),
          \<lambda>n. int n + 6) \<and>
   committed_terms (DLRepP (A1\<lparr>group_order := Some 7, ks := Some [4, 3]\<rparr>)) =
     [(''x'', 4), (''y'', 3)] \<and>
   committed_terms (DLRepP (A2\<lparr>group_order := Some 7, ks := Some [4, 5]\<rparr>)) =
     [(''x'', 4), (''z'', 5)] \<and>
   (\<exists>d. prover_get_randomizers Z7_lib (AndProofProver (DLRepP A1) (DLRepP A2)) (\<lambda>n. int n + 2) =
          Inr (d, \<lambda>n. int n + 6) \<and>
        map_of d ''x'' = Some 4 \<and> map_of d ''y'' = Some 3 \<and> map_of d ''z'' = Some 5)"
proof -
  have t1: "committed_terms (DLRepP (A1\<lparr>group_order := Some 7, ks := Some [4, 3]\<rparr>)) =
      [(''x'', 4), (''y'', 3)]"
    and t2: "committed_terms (DLRepP (A2\<lparr>group_order := Some 7, ks := Some [4, 5]\<rparr>)) =
      [(''x'', 4), (''z'', 5)]"
    by (simp_all add: A1_def A2_def DLRepProver_init_def)
  from AndProofProver_commit_shares_randomizers [OF A12_commit]
  obtain d where "prover_get_randomizers Z7_lib (AndProofProver (DLRepP A1) (DLRepP A2))
        (\<lambda>n. int n + 2) = Inr (d, \<lambda>n. int n + 6)"
    and "\<forall>(n, k)\<in>set (committed_terms (DLRepP (A1\<lparr>group_order := Some 7, ks := Some [4, 3]\<rparr>))).
        map_of d n = Some k"
    and "\<forall>(n, k)\<in>set (committed_terms (DLRepP (A2\<lparr>group_order := Some 7, ks := Some [4, 5]\<rparr>))).
        map_of d n = Some k"
    by auto
  then have "\<exists>d. prover_get_randomizers Z7_lib (AndProofProver (DLRepP A1) (DLRepP A2))
        (\<lambda>n. int n + 2) = Inr (d, \<lambda>n. int n + 6) \<and>
      map_of d ''x'' = Some 4 \<and> map_of d ''y'' = Some 3 \<and> map_of d ''z'' = Some 5"
    unfolding t1 t2 by auto
  with A12_commit t1 t2 show ?thesis by blast
qed


text \<open>
  The two verifiers of an \<^verbatim>\<open>AndProofVerifier\<close> are objects of any class with the methods
  \<^verbatim>\<open>send_challenge\<close> and \<^verbatim>\<open>verify\<close> (the class \<^verbatim>\<open>Verifier\<close> that declares them is not
  among the sources). The class of a child is the table of its two methods, over the state
  \<open>'v\<close> of the child: \<^verbatim>\<open>send_challenge\<close> may draw from the tape and change the child,
  \<^verbatim>\<open>verify\<close> answers with a Boolean; either may raise.
\<close>

record ('v, 'p) verifier_class =
  child_send_challenge :: "'v \<Rightarrow> 'p commitment \<Rightarrow> tape \<Rightarrow> error + (int \<times> 'v \<times> tape)"
  child_verify :: "'v \<Rightarrow> response \<Rightarrow> 'p commitment \<Rightarrow> int \<Rightarrow> error + bool"

text \<open>\<open>commitment\<close> and \<open>and_challenge\<close> are attributes that only \<^verbatim>\<open>send_challenge\<close> sets.\<close>

record ('v1, 'v2, 'p) AndProofVerifier =
  verifier1 :: 'v1
  verifier2 :: 'v2
  commitment :: "'p commitment option"
  and_challenge :: "int option"

definition AndProofVerifier_init :: "'v1 \<Rightarrow> 'v2 \<Rightarrow> ('v1, 'v2, 'p) AndProofVerifier" where
  "AndProofVerifier_init v1 v2 =
     \<lparr>verifier1 = v1, verifier2 = v2, commitment = None, and_challenge = None\<rparr>"

definition send_challenge ::
  "('v1, 'p) verifier_class \<Rightarrow> ('v1, 'v2, 'p) AndProofVerifier \<Rightarrow> 'p commitment \<Rightarrow> tape
     \<Rightarrow> error + (int \<times> ('v1, 'v2, 'p) AndProofVerifier \<times> tape)" where
  "send_challenge K1 V com t =
     (let V1 = V\<lparr>commitment := Some com\<rparr> in
      case com of
        PointCommitment _ \<Rightarrow> Inl (AttributeError ''commitment1'')
      | AndProofCommitment commitment1 commitment2 \<Rightarrow>
          (case child_send_challenge K1 (verifier1 V1) commitment1 t of
             Inl e \<Rightarrow> Inl e
           | Inr (c, v1', t') \<Rightarrow>
               Inr (c, V1\<lparr>verifier1 := v1', and_challenge := Some c\<rparr>, t')))"

definition verify ::
  "('v1, 'p) verifier_class \<Rightarrow> ('v2, 'p) verifier_class \<Rightarrow> ('v1, 'v2, 'p) AndProofVerifier
     \<Rightarrow> response \<Rightarrow> 'p commitment option \<Rightarrow> int option \<Rightarrow> error + bool" where
  "verify K1 K2 V responses com challenge =
     (case (case challenge of
              None \<Rightarrow> (case and_challenge V of
                          None \<Rightarrow> Inl (AttributeError ''and_challenge'')
                        | Some c \<Rightarrow> Inr c)
            | Some c \<Rightarrow> Inr c) of
        Inl e \<Rightarrow> Inl e
      | Inr challenge' \<Rightarrow>
          (case (case com of
                   None \<Rightarrow> (case commitment V of
                               None \<Rightarrow> Inl (AttributeError ''commitment'')
                             | Some c \<Rightarrow> Inr c)
                 | Some c \<Rightarrow> Inr c) of
             Inl e \<Rightarrow> Inl e
           | Inr com' \<Rightarrow>
               (case responses of
                  ListResponse _ \<Rightarrow> Inl (AttributeError ''response1'')
                | AndProofResponse response1 response2 \<Rightarrow>
                    (case com' of
                       PointCommitment _ \<Rightarrow> Inl (AttributeError ''commitment1'')
                     | AndProofCommitment commitment1 commitment2 \<Rightarrow>
                         (case child_verify K1 (verifier1 V) response1 commitment1 challenge' of
                            Inl e \<Rightarrow> Inl e
                          | Inr b1 \<Rightarrow>
                              (if b1
                               then child_verify K2 (verifier2 V) response2 commitment2 challenge'
                               else Inr False))))))"

text \<open>
  Claim C4 (one challenge for both conjuncts). \<^verbatim>\<open>send_challenge\<close> stores the commitment it
  receives and returns (and stores) exactly the challenge that the first child returns for
  the first sub-commitment. \<^verbatim>\<open>verify\<close> takes the challenge and the commitment passed to it,
  or else the stored ones, and verifies the first child against the first sub-response and
  sub-commitment, then the second child against the second ones, both against that one
  challenge: when both children answer, the result is the conjunction of the two answers
  (the second child is not asked when the first answers \<^verbatim>\<open>False\<close>).
\<close>

theorem AndProofVerifier_single_challenge:
  "(child_send_challenge K1 (verifier1 V) c1 t = Inr (ch, v1', t') \<longrightarrow>
      send_challenge K1 V (AndProofCommitment c1 c2) t =
        Inr (ch, V\<lparr>verifier1 := v1', commitment := Some (AndProofCommitment c1 c2),
                   and_challenge := Some ch\<rparr>, t')) \<and>
   ((case challenge of None \<Rightarrow> and_challenge V | Some x \<Rightarrow> Some x) = Some x \<and>
    (case com of None \<Rightarrow> commitment V | Some d \<Rightarrow> Some d) = Some (AndProofCommitment d1 d2) \<longrightarrow>
      verify K1 K2 V (AndProofResponse r1 r2) com challenge =
        (case child_verify K1 (verifier1 V) r1 d1 x of
           Inl e \<Rightarrow> Inl e
         | Inr b1 \<Rightarrow> if b1 then child_verify K2 (verifier2 V) r2 d2 x else Inr False) \<and>
      (\<forall>b1 b2. child_verify K1 (verifier1 V) r1 d1 x = Inr b1 \<and>
         child_verify K2 (verifier2 V) r2 d2 x = Inr b2 \<longrightarrow>
         verify K1 K2 V (AndProofResponse r1 r2) com challenge = Inr (b1 \<and> b2)))"
  by (auto simp: send_challenge_def verify_def Let_def split: option.splits)

text \<open>Modelled from the spec: the methods \<^verbatim>\<open>send_challenge\<close> and \<^verbatim>\<open>verify\<close> of a
  \<^verbatim>\<open>DLRepVerifier\<close> are inherited from the class \<^verbatim>\<open>Verifier\<close> of \<^verbatim>\<open>SigmaProtocol\<close>, which is
  not among the sources. The spec (4.G, 4.C): \<^verbatim>\<open>send_challenge\<close> picks a uniformly random
  128-bit scalar; \<^verbatim>\<open>verify(responses, commitment, challenge)\<close> is
  \<^verbatim>\<open>recompute_commitment(challenge, responses) == commitment\<close>. Used to run an
  \<^verbatim>\<open>AndProofVerifier\<close> on two such children.\<close>

definition DLRepVerifier_class :: "'p ec_lib \<Rightarrow> ('p DLRepVerifier, 'p) verifier_class" where
  "DLRepVerifier_class E =
     \<lparr>child_send_challenge = (\<lambda>v com t. let (c, t') = chal_128bits t in Inr (c, v, t')),
      child_verify = (\<lambda>v r com c.
        case r of
          AndProofResponse _ _ \<Rightarrow> Inl TypeError
        | ListResponse rs \<Rightarrow>
            (case com of
               AndProofCommitment _ _ \<Rightarrow> Inl TypeError
             | PointCommitment p \<Rightarrow>
                 (case recompute_commitment E v c rs of
                    Inl e \<Rightarrow> Inl e
                  | Inr q \<Rightarrow> pt_eq E q p)))\<rparr>"

definition V12 :: "((nat \<times> 7) DLRepVerifier, (nat \<times> 7) DLRepVerifier, nat \<times> 7) AndProofVerifier" where
  "V12 = AndProofVerifier_init
     (DLRepVerifier_init [(0, 1), (0, 3)] [''x'', ''y''] (0, 4))
     (DLRepVerifier_init [(0, 2), (0, 5)] [''x'', ''z''] (0, 1))"

lemma V12_child1:
  "child_verify (DLRepVerifier_class Z7_lib) (verifier1 V12) (ListResponse [2, 2])
     (PointCommitment (0, 6)) 4 = Inr True"
  by (simp add: DLRepVerifier_class_def V12_def AndProofVerifier_init_def DLRepVerifier_init_def
        recompute_commitment_def raise_powers_def pt_add_def pt_eq_def Z7_lib_def)

lemma V12_child2:
  "child_verify (DLRepVerifier_class Z7_lib) (verifier2 V12) (ListResponse [2, 1])
     (PointCommitment (0, 5)) 4 = Inr True"
  by (simp add: DLRepVerifier_class_def V12_def AndProofVerifier_init_def DLRepVerifier_init_def
        recompute_commitment_def raise_powers_def pt_add_def pt_eq_def Z7_lib_def)

lemma V12_child_challenge:
  "child_send_challenge (DLRepVerifier_class Z7_lib) (verifier1 V12) (PointCommitment (0, 6)) (\<lambda>_. 4) =
     Inr (4, verifier1 V12, \<lambda>_. 4)"
  by (simp add: DLRepVerifier_class_def chal_128bits_def random_def)

theorem AndProofVerifier_single_challenge_witness:
  "send_challenge (DLRepVerifier_class Z7_lib) V12
     (AndProofCommitment (PointCommitment (0, 6)) (PointCommitment (0, 5))) (\<lambda>_. 4) =
     Inr (4, V12\<lparr>verifier1 := verifier1 V12,
                 commitment := Some (AndProofCommitment (PointCommitment (0, 6)) (PointCommitment (0, 5))),
                 and_challenge := Some 4\<rparr>, \<lambda>_. 4) \<and>
   verify (DLRepVerifier_class Z7_lib) (DLRepVerifier_class Z7_lib)
     (V12\<lparr>verifier1 := verifier1 V12,
          commitment := Some (AndProofCommitment (PointCommitment (0, 6)) (PointCommitment (0, 5))),
          and_challenge := Some 4\<rparr>)
     (AndProofResponse (ListResponse [2, 2]) (ListResponse [2, 1])) None None = Inr True"
proof -
  let ?K = "DLRepVerifier_class Z7_lib"
  let ?c1 = "PointCommitment (0 :: nat, 6 :: 7)"
  let ?c2 = "PointCommitment (0 :: nat, 5 :: 7)"
  let ?V = "V12\<lparr>verifier1 := verifier1 V12, commitment := Some (AndProofCommitment ?c1 ?c2),
      and_challenge := Some 4\<rparr>"
  note T1 = AndProofVerifier_single_challenge
    [where ?K1.0 = ?K and V = V12 and ?c1.0 = ?c1 and t = "\<lambda>_. 4" and ch = 4
       and v1' = "verifier1 V12" and t' = "\<lambda>_. 4" and ?c2.0 = ?c2, THEN conjunct1]
  from T1 V12_child_challenge
  have 1: "send_challenge ?K V12 (AndProofCommitment ?c1 ?c2) (\<lambda>_. 4) = Inr (4, ?V, \<lambda>_. 4)"
    by (rule mp)
  note T2 = AndProofVerifier_single_challenge
    [where ?K1.0 = ?K and ?K2.0 = ?K and V = ?V and challenge = None and x = 4 and com = None
       and ?d1.0 = ?c1 and ?d2.0 = ?c2 and ?r1.0 = "ListResponse [2, 2]"
       and ?r2.0 = "ListResponse [2, 1]", THEN conjunct2]
  have h: "(case None of None \<Rightarrow> and_challenge ?V | Some x \<Rightarrow> Some x) = Some 4 \<and>
      (case None of None \<Rightarrow> commitment ?V | Some d \<Rightarrow> Some d) = Some (AndProofCommitment ?c1 ?c2)"
    by simp
  have k: "child_verify ?K (verifier1 ?V) (ListResponse [2, 2]) ?c1 4 = Inr True \<and>
      child_verify ?K (verifier2 ?V) (ListResponse [2, 1]) ?c2 4 = Inr True"
    using V12_child1 V12_child2 by simp
  from T2 h have "\<forall>b1 b2. child_verify ?K (verifier1 ?V) (ListResponse [2, 2]) ?c1 4 = Inr b1 \<and>
         child_verify ?K (verifier2 ?V) (ListResponse [2, 1]) ?c2 4 = Inr b2 \<longrightarrow>
         verify ?K ?K ?V (AndProofResponse (ListResponse [2, 2]) (ListResponse [2, 1])) None None =
           Inr (b1 \<and> b2)"
    by (rule mp [THEN conjunct2])
  then have "child_verify ?K (verifier1 ?V) (ListResponse [2, 2]) ?c1 4 = Inr True \<and>
         child_verify ?K (verifier2 ?V) (ListResponse [2, 1]) ?c2 4 = Inr True \<longrightarrow>
         verify ?K ?K ?V (AndProofResponse (ListResponse [2, 2]) (ListResponse [2, 1])) None None =
           Inr (True \<and> True)"
    by (elim allE)
  from this k
  have "verify ?K ?K ?V (AndProofResponse (ListResponse [2, 2]) (ListResponse [2, 1])) None None =
      Inr (True \<and> True)"
    by (rule mp)
  with 1 show ?thesis by simp
qed

section \<open>zkbuilder/primitives/rangeproof.py\<close>

text \<open>
  Two more operations of the big numbers of the library: \<^verbatim>\<open>num_bits\<close> is the length of the
  binary numeral of the magnitude (0 for the number 0) and \<^verbatim>\<open>is_bit_set(b)\<close> reads bit \<open>b\<close> of
  the magnitude.
\<close>

fun nat_num_bits :: "nat \<Rightarrow> nat" where
  "nat_num_bits m = (if m = 0 then 0 else Suc (nat_num_bits (m div 2)))"

definition num_bits :: "int \<Rightarrow> nat" where
  "num_bits v = nat_num_bits (nat \<bar>v\<bar>)"

definition is_bit_set :: "int \<Rightarrow> nat \<Rightarrow> bool" where
  "is_bit_set v b = odd (nat \<bar>v\<bar> div 2 ^ b)"

definition decompose_into_n_bits :: "int \<Rightarrow> nat \<Rightarrow> error + int list" where
  "decompose_into_n_bits v n =
     (let base = map (\<lambda>b. if is_bit_set v b then 1 else 0) [0..<num_bits v];
          extra_bits = int n - int (length base) in
      if extra_bits < 0
      then Inl (Exception ''Not enough bits to represent value'')
      else Inr (base @ replicate (nat extra_bits) 0))"

text \<open>
  An entry of a precommitment is a point or a number: the prover appends the revealed
  randomizer to the list of the bit commitments.
\<close>

datatype 'p pre_item = PrePoint 'p | PreBn int

text \<open>
  The statement \<^verbatim>\<open>PowerTwoRangeProof\<close>, with the attributes that the precommitment and its
  check read. \<open>secret_vars\<close> is set only when both secrets have values; \<open>precommitment\<close> is
  set by \<^verbatim>\<open>build_constructed_proof\<close>.
\<close>

record 'p PowerTwoRangeProof =
  is_prover :: bool
  secret_vars :: "Secret list option"
  com :: 'p
  g :: 'p
  h :: 'p
  nr_bits :: nat
  randomizers :: "Secret list"
  precommitment :: "'p pre_item list option"

text \<open>\<^verbatim>\<open>for rand in self.proof.randomizers: rand.value = order.random()\<close>\<close>

fun draw_randomizers :: "int \<Rightarrow> Secret list \<Rightarrow> tape \<Rightarrow> Secret list \<times> tape" where
  "draw_randomizers m [] t = ([], t)"
| "draw_randomizers m (rand # rest) t =
     (let (r, t1) = random m t;
          (rest', t2) = draw_randomizers m rest t1
      in (rand\<lparr>val := Some r\<rparr> # rest', t2))"

text \<open>The entry \<^verbatim>\<open>b * g + r.value * h\<close> of the list of bit commitments.\<close>

definition bit_commitment :: "'p ec_lib \<Rightarrow> 'p \<Rightarrow> 'p \<Rightarrow> int \<times> Secret \<Rightarrow> error + 'p" where
  "bit_commitment E pg ph br =
     (case val (snd br) of
        None \<Rightarrow> Inl TypeError
      | Some r \<Rightarrow> pt_add E (ec_mul E (fst br) pg) (ec_mul E r ph))"

text \<open>The loop that accumulates the revealed randomizer, with its two variables \<open>rand\<close> and
  \<open>power\<close> (here \<open>pw\<close>).\<close>

fun revealed_loop :: "int \<Rightarrow> int \<Rightarrow> int \<Rightarrow> Secret list \<Rightarrow> error + int" where
  "revealed_loop m rand pw [] = Inr rand"
| "revealed_loop m rand pw (r # rs) =
     (case val r of
        None \<Rightarrow> Inl TypeError
      | Some rv \<Rightarrow> revealed_loop m (mod_add rand (rv * pw) m) (pw * 2) rs)"

definition internal_precommit ::
  "'p ec_lib \<Rightarrow> 'p PowerTwoRangeProof \<Rightarrow> tape
     \<Rightarrow> error + ('p pre_item list \<times> 'p PowerTwoRangeProof \<times> tape)" where
  "internal_precommit E P t =
     (let m = ec_order E (ec_group E (g P)) in
      case secret_vars P of
        None \<Rightarrow> Inl (AttributeError ''secret_vars'')
      | Some svs \<Rightarrow>
          (if length svs \<le> 0 then Inl IndexError
           else case val (svs ! 0) of
             None \<Rightarrow> Inl (AttributeError ''num_bits'')
           | Some v \<Rightarrow>
               (case decompose_into_n_bits v (nr_bits P) of
                  Inl e \<Rightarrow> Inl e
                | Inr value_as_bits \<Rightarrow>
                    (let (rands, t') = draw_randomizers m (randomizers P) t in
                     case map_err (bit_commitment E (g P) (h P)) (zip value_as_bits rands) of
                       Inl e \<Rightarrow> Inl e
                     | Inr pre \<Rightarrow>
                         (case revealed_loop m 0 1 rands of
                            Inl e \<Rightarrow> Inl e
                          | Inr rand \<Rightarrow>
                              (if length svs \<le> 1 then Inl IndexError
                               else case val (svs ! 1) of
                                 None \<Rightarrow> Inl TypeError
                               | Some rv \<Rightarrow>
                                   Inr (map PrePoint pre @ [PreBn (mod_sub rand rv m)],
                                        P\<lparr>randomizers := rands\<rparr>, t')))))))"

text \<open>The loop of \<^verbatim>\<open>check_adequate_lhs\<close> over \<^verbatim>\<open>precommitment[:nr_bits]\<close>, with the two
  variables \<open>combined\<close> and \<open>power\<close> (here \<open>pw\<close>). Adding a number to a point is refused by the library.\<close>

fun combine_loop :: "'p ec_lib \<Rightarrow> 'p \<Rightarrow> int \<Rightarrow> 'p pre_item list \<Rightarrow> error + 'p" where
  "combine_loop E combined pw [] = Inr combined"
| "combine_loop E combined pw (PrePoint c # cs) =
     (case pt_add E combined (ec_mul E pw c) of
        Inl e \<Rightarrow> Inl e
      | Inr combined' \<Rightarrow> combine_loop E combined' (pw * 2) cs)"
| "combine_loop E combined pw (PreBn c # cs) = Inl EcError"

definition check_adequate_lhs :: "'p ec_lib \<Rightarrow> 'p PowerTwoRangeProof \<Rightarrow> error + bool" where
  "check_adequate_lhs E P =
     (case precommitment P of
        None \<Rightarrow> Inl (AttributeError ''precommitment'')
      | Some pre \<Rightarrow>
          (if nr_bits P < length pre
           then (case combine_loop E (ec_infinite E (ec_group E (g P))) 1 (take (nr_bits P) pre) of
                   Inl e \<Rightarrow> Inl e
                 | Inr combined \<Rightarrow>
                     (case pre ! nr_bits P of
                        PrePoint _ \<Rightarrow> Inl TypeError
                      | PreBn rand \<Rightarrow>
                          (case pt_add E (com P) (ec_mul E rand (h P)) of
                             Inl e \<Rightarrow> Inl e
                           | Inr rhs \<Rightarrow> pt_eq E combined rhs)))
           else Inl IndexError))"


declare nat_num_bits.simps [simp del]

lemma nat_num_bits_bound: "m < 2 ^ nat_num_bits m"
proof (induction m rule: nat_num_bits.induct)
  case (1 m)
  show ?case
  proof (cases "m = 0")
    case True
    then show ?thesis by (simp add: nat_num_bits.simps)
  next
    case False
    with 1 have "m div 2 < 2 ^ nat_num_bits (m div 2)" by simp
    then have "m < 2 * 2 ^ nat_num_bits (m div 2)" by linarith
    with False show ?thesis by (simp add: nat_num_bits.simps [of m])
  qed
qed

lemma is_bit_set_high: "num_bits v \<le> b \<Longrightarrow> \<not> is_bit_set v b"
proof -
  assume "num_bits v \<le> b"
  then have "(2 :: nat) ^ num_bits v \<le> 2 ^ b" by simp
  moreover have "nat \<bar>v\<bar> < 2 ^ num_bits v"
    unfolding num_bits_def by (rule nat_num_bits_bound)
  ultimately have "nat \<bar>v\<bar> < 2 ^ b"
    by (rule less_le_trans [rotated])
  then show ?thesis by (simp add: is_bit_set_def)
qed

lemma decompose_into_n_bits_fits:
  assumes "num_bits v \<le> n"
  shows "decompose_into_n_bits v n = Inr (map (\<lambda>b. if is_bit_set v b then 1 else 0) [0..<n])"
proof -
  let ?f = "\<lambda>b. if is_bit_set v b then 1 else (0 :: int)"
  let ?k = "num_bits v"
  have "map ?f [?k..<n] = map (\<lambda>b. 0) [?k..<n]"
    by (rule map_cong) (simp_all add: is_bit_set_high)
  also have "\<dots> = replicate (n - ?k) 0"
    by (simp add: map_replicate_const)
  finally have hi: "map ?f [?k..<n] = replicate (n - ?k) 0" .
  from assms have "[0..<n] = [0..<?k] @ [?k..<n]"
    by (metis le_add_diff_inverse upt_add_eq_append zero_le)
  then have "map ?f [0..<n] = map ?f [0..<?k] @ replicate (n - ?k) 0"
    by (simp add: hi)
  moreover from assms have "nat (int n - int ?k) = n - ?k" by simp
  ultimately show ?thesis
    using assms by (simp add: decompose_into_n_bits_def Let_def)
qed

lemma decompose_into_n_bits_exceeds:
  assumes "n < num_bits v"
  shows "decompose_into_n_bits v n = Inl (Exception ''Not enough bits to represent value'')"
  using assms by (simp add: decompose_into_n_bits_def Let_def)

text \<open>
  Claim C8 (a value beyond its bit width is refused). \<^verbatim>\<open>decompose_into_n_bits(v, n)\<close> raises
  exactly when \<^verbatim>\<open>v.num_bits()\<close> exceeds \<open>n\<close>; otherwise it returns the list of exactly \<open>n\<close>
  bits of \<open>v\<close>, least significant first, with zeros at the high end. So the prover's
  \<^verbatim>\<open>internal_precommit\<close> raises the same exception when the value of its first secret has
  more bits than \<open>nr_bits\<close>.
\<close>

theorem decompose_into_n_bits_range:
  "((\<exists>e. decompose_into_n_bits v n = Inl e) \<longleftrightarrow> n < num_bits v) \<and>
   (n < num_bits v \<longrightarrow>
      decompose_into_n_bits v n = Inl (Exception ''Not enough bits to represent value'')) \<and>
   (num_bits v \<le> n \<longrightarrow>
      decompose_into_n_bits v n = Inr (map (\<lambda>b. if is_bit_set v b then 1 else 0) [0..<n]) \<and>
      (\<forall>bits. decompose_into_n_bits v n = Inr bits \<longrightarrow> length bits = n)) \<and>
   (secret_vars P = Some svs \<and> svs \<noteq> [] \<and> val (svs ! 0) = Some v \<and> nr_bits P < num_bits v \<longrightarrow>
      internal_precommit E P t = Inl (Exception ''Not enough bits to represent value''))"
proof (intro conjI impI allI)
  show "(\<exists>e. decompose_into_n_bits v n = Inl e) \<longleftrightarrow> n < num_bits v"
  proof (cases "n < num_bits v")
    case True
    with decompose_into_n_bits_exceeds [OF True] show ?thesis by simp
  next
    case False
    then have "num_bits v \<le> n" by simp
    from decompose_into_n_bits_fits [OF this] False show ?thesis by simp
  qed
next
  assume "n < num_bits v"
  then show "decompose_into_n_bits v n = Inl (Exception ''Not enough bits to represent value'')"
    by (rule decompose_into_n_bits_exceeds)
next
  assume "num_bits v \<le> n"
  then show "decompose_into_n_bits v n = Inr (map (\<lambda>b. if is_bit_set v b then 1 else 0) [0..<n])"
    by (rule decompose_into_n_bits_fits)
next
  fix bits
  assume "num_bits v \<le> n" "decompose_into_n_bits v n = Inr bits"
  with decompose_into_n_bits_fits [of v n] show "length bits = n" by auto
next
  assume a: "secret_vars P = Some svs \<and> svs \<noteq> [] \<and> val (svs ! 0) = Some v \<and> nr_bits P < num_bits v"
  then have "decompose_into_n_bits v (nr_bits P) =
      Inl (Exception ''Not enough bits to represent value'')"
    by (intro decompose_into_n_bits_exceeds) simp
  with a show "internal_precommit E P t = Inl (Exception ''Not enough bits to represent value'')"
    by (simp add: internal_precommit_def Let_def)
qed

lemma num_bits_10: "num_bits 10 = 4"
  by (simp add: num_bits_def nat_num_bits.simps)

lemma num_bits_32: "num_bits 32 = 6"
  by (simp add: num_bits_def nat_num_bits.simps)

subsection \<open>The sums that the two loops compute\<close>

text \<open>\<open>binsum [x\<^sub>0, x\<^sub>1, \<dots>]\<close> is the number \<open>\<Sum> 2\<^sup>i * x\<^sub>i\<close>, and \<open>wsum E G pw [c\<^sub>0, c\<^sub>1, \<dots>]\<close> the point
  \<open>\<Sum> (pw * 2\<^sup>i) * c\<^sub>i\<close> of the group \<open>G\<close>.\<close>

fun binsum :: "int list \<Rightarrow> int" where
  "binsum [] = 0"
| "binsum (x # xs) = x + 2 * binsum xs"

fun wsum :: "'p ec_lib \<Rightarrow> nat \<Rightarrow> int \<Rightarrow> 'p list \<Rightarrow> 'p" where
  "wsum E G pw [] = ec_infinite E G"
| "wsum E G pw (c # cs) = ec_add E (ec_mul E pw c) (wsum E G (pw * 2) cs)"

lemma binsum_bits: "binsum (map (\<lambda>b. if odd (m div 2 ^ b) then 1 else 0) [0..<n]) = int (m mod 2 ^ n)"
proof (induction n arbitrary: m)
  case 0
  show ?case by simp
next
  case (Suc n)
  have "map (\<lambda>b. if odd (m div 2 ^ b) then 1 else (0 :: int)) [0..<Suc n] =
      (if odd m then 1 else 0) # map (\<lambda>b. if odd (m div 2 ^ Suc b) then 1 else 0) [0..<n]"
    by (simp add: upt_conv_Cons map_Suc_upt [symmetric] del: upt_Suc)
  also have "map (\<lambda>b. if odd (m div 2 ^ Suc b) then 1 else (0 :: int)) [0..<n] =
      map (\<lambda>b. if odd (m div 2 div 2 ^ b) then 1 else 0) [0..<n]"
    by (simp add: div_mult2_eq)
  finally have "binsum (map (\<lambda>b. if odd (m div 2 ^ b) then 1 else 0) [0..<Suc n]) =
      (if odd m then 1 else 0) + 2 * int (m div 2 mod 2 ^ n)"
    by (simp add: Suc.IH)
  also have "\<dots> = int (m mod 2 + 2 * (m div 2 mod 2 ^ n))"
    by (simp add: odd_iff_mod_2_eq_one)
  also have "m mod 2 + 2 * (m div 2 mod 2 ^ n) = m mod 2 ^ Suc n"
    by (simp add: mod_mult2_eq)
  finally show ?case .
qed

lemma binsum_decompose:
  assumes "0 \<le> v" "num_bits v \<le> n"
  shows "binsum (map (\<lambda>b. if is_bit_set v b then 1 else 0) [0..<n]) = v"
proof -
  have "nat \<bar>v\<bar> < 2 ^ num_bits v"
    unfolding num_bits_def by (rule nat_num_bits_bound)
  also from assms(2) have "(2 :: nat) ^ num_bits v \<le> 2 ^ n" by simp
  finally have "nat \<bar>v\<bar> mod 2 ^ n = nat \<bar>v\<bar>" by simp
  with binsum_bits [of "nat \<bar>v\<bar>" n] assms(1) show ?thesis
    by (simp add: is_bit_set_def)
qed

lemma draw_randomizers_vals:
  "\<exists>rs t'. draw_randomizers m rands t = (map (\<lambda>(s, r). s\<lparr>val := Some r\<rparr>) (zip rands rs), t') \<and>
     length rs = length rands"
proof (induction rands arbitrary: t)
  case Nil
  show ?case by simp
next
  case (Cons s rands)
  obtain r t1 where r: "random m t = (r, t1)" by (cases "random m t")
  from Cons.IH [of t1] obtain rs t' where
    "draw_randomizers m rands t1 = (map (\<lambda>(s, r). s\<lparr>val := Some r\<rparr>) (zip rands rs), t')"
    "length rs = length rands" by blast
  with r have "draw_randomizers m (s # rands) t =
      (map (\<lambda>(s, r). s\<lparr>val := Some r\<rparr>) (zip (s # rands) (r # rs)), t') \<and>
      length (r # rs) = length (s # rands)"
    by simp
  then show ?case by blast
qed

lemma bit_commitments_return:
  assumes L: "ec_laws E G" and pg: "ec_group E pg = G" and ph: "ec_group E ph = G"
  shows "length rs = length rands \<Longrightarrow>
     map_err (bit_commitment E pg ph) (zip bs (map (\<lambda>(s, r). s\<lparr>val := Some r\<rparr>) (zip rands rs))) =
       Inr (map (\<lambda>(b, r). ec_add E (ec_mul E b pg) (ec_mul E r ph)) (zip bs rs))"
proof (induction bs arbitrary: rs rands)
  case Nil
  show ?case by simp
next
  case (Cons b bs)
  show ?case
  proof (cases rs)
    case Nil
    with Cons.prems show ?thesis by simp
  next
    case (Cons r rs')
    with Cons.prems obtain s rands' where rands: "rands = s # rands'" "length rs' = length rands'"
      by (cases rands) auto
    have "bit_commitment E pg ph (b, s\<lparr>val := Some r\<rparr>) =
        Inr (ec_add E (ec_mul E b pg) (ec_mul E r ph))"
      by (simp add: bit_commitment_def pt_add_def ec_mul_group [OF L pg] ec_mul_group [OF L ph])
    with Cons.IH [OF rands(2)] show ?thesis
      by (simp add: Cons rands)
  qed
qed

lemma revealed_loop_returns:
  assumes m: "0 < m"
  shows "length rs = length rands \<Longrightarrow> 0 \<le> rand \<Longrightarrow> rand < m \<Longrightarrow>
     revealed_loop m rand pw (map (\<lambda>(s, r). s\<lparr>val := Some r\<rparr>) (zip rands rs)) =
       Inr ((rand + pw * binsum rs) mod m)"
proof (induction rs arbitrary: rands rand pw)
  case Nil
  then show ?case by simp
next
  case (Cons r rs)
  from Cons.prems(1) obtain s rands' where rands: "rands = s # rands'" "length rs = length rands'"
    by (cases rands) auto
  let ?rand' = "mod_add rand (r * pw) m"
  from m have "0 \<le> ?rand'" "?rand' < m" by (simp_all add: mod_add_def)
  from Cons.IH [OF rands(2) this, of "pw * 2"]
  have "revealed_loop m rand pw (map (\<lambda>(s, r). s\<lparr>val := Some r\<rparr>) (zip rands (r # rs))) =
      Inr ((?rand' + pw * 2 * binsum rs) mod m)"
    by (simp add: rands)
  also have "(?rand' + pw * 2 * binsum rs) mod m = (rand + r * pw + pw * 2 * binsum rs) mod m"
    by (simp add: mod_add_def mod_add_left_eq)
  also have "rand + r * pw + pw * 2 * binsum rs = rand + pw * binsum (r # rs)"
    by (simp add: algebra_simps)
  finally show ?case .
qed

lemma wsum_group:
  assumes L: "ec_laws E G"
  shows "\<forall>c\<in>set cs. ec_group E c = G \<Longrightarrow> ec_group E (wsum E G pw cs) = G"
  by (induction cs arbitrary: pw)
     (simp_all add: ec_inf_group [OF L] ec_add_group [OF L] ec_mul_group [OF L])

lemma combine_loop_wsum:
  assumes L: "ec_laws E G"
  shows "ec_group E acc = G \<Longrightarrow> \<forall>c\<in>set cs. ec_group E c = G \<Longrightarrow>
     combine_loop E acc pw (map PrePoint cs) = Inr (ec_add E acc (wsum E G pw cs))"
proof (induction cs arbitrary: acc pw)
  case Nil
  then show ?case by (simp add: ec_add_inf_right [OF L])
next
  case (Cons c cs)
  from Cons.prems have c: "ec_group E c = G" and cs: "\<forall>c\<in>set cs. ec_group E c = G"
    by simp_all
  have mc: "ec_group E (ec_mul E pw c) = G" by (rule ec_mul_group [OF L c])
  have a: "ec_group E (ec_add E acc (ec_mul E pw c)) = G"
    by (rule ec_add_group [OF L Cons.prems(1) mc])
  have "combine_loop E acc pw (map PrePoint (c # cs)) =
      combine_loop E (ec_add E acc (ec_mul E pw c)) (pw * 2) (map PrePoint cs)"
    using Cons.prems(1) mc by (simp add: pt_add_def)
  also have "\<dots> = Inr (ec_add E (ec_add E acc (ec_mul E pw c)) (wsum E G (pw * 2) cs))"
    by (rule Cons.IH [OF a cs])
  also have "ec_add E (ec_add E acc (ec_mul E pw c)) (wsum E G (pw * 2) cs) =
      ec_add E acc (ec_add E (ec_mul E pw c) (wsum E G (pw * 2) cs))"
    by (rule ec_add_assoc [OF L Cons.prems(1) mc wsum_group [OF L cs]])
  finally show ?case by simp
qed


lemma wsum_bit_commitments:
  assumes L: "ec_laws E G" and pg: "ec_group E pg = G" and ph: "ec_group E ph = G"
  shows "length bs = length rs \<Longrightarrow>
     wsum E G pw (map (\<lambda>(b, r). ec_add E (ec_mul E b pg) (ec_mul E r ph)) (zip bs rs)) =
       ec_add E (ec_mul E (pw * binsum bs) pg) (ec_mul E (pw * binsum rs) ph)"
proof (induction bs rs arbitrary: pw rule: list_induct2)
  case Nil
  show ?case
    by (simp add: ec_mul_zero [OF L pg] ec_mul_zero [OF L ph]
        ec_add_inf_left [OF L ec_inf_group [OF L]])
next
  case (Cons b bs r rs)
  note mg = ec_mul_group [OF L pg] ec_mul_group [OF L ph]
  let ?B = "pw * 2 * binsum bs" and ?R = "pw * 2 * binsum rs"
  have "wsum E G pw (map (\<lambda>(b, r). ec_add E (ec_mul E b pg) (ec_mul E r ph)) (zip (b # bs) (r # rs))) =
      ec_add E (ec_mul E pw (ec_add E (ec_mul E b pg) (ec_mul E r ph)))
        (ec_add E (ec_mul E ?B pg) (ec_mul E ?R ph))"
    by (simp add: Cons.IH)
  also have "ec_mul E pw (ec_add E (ec_mul E b pg) (ec_mul E r ph)) =
      ec_add E (ec_mul E pw (ec_mul E b pg)) (ec_mul E pw (ec_mul E r ph))"
    by (rule ec_mul_add_point [OF L mg])
  also have "ec_mul E pw (ec_mul E b pg) = ec_mul E (pw * b) pg"
    by (rule ec_mul_mul [OF L pg, symmetric])
  also have "ec_mul E pw (ec_mul E r ph) = ec_mul E (pw * r) ph"
    by (rule ec_mul_mul [OF L ph, symmetric])
  also have "ec_add E (ec_add E (ec_mul E (pw * b) pg) (ec_mul E (pw * r) ph))
        (ec_add E (ec_mul E ?B pg) (ec_mul E ?R ph)) =
      ec_add E (ec_add E (ec_mul E (pw * b) pg) (ec_mul E ?B pg))
        (ec_add E (ec_mul E (pw * r) ph) (ec_mul E ?R ph))"
    by (rule ec_add_swap4 [OF L mg mg])
  also have "ec_add E (ec_mul E (pw * b) pg) (ec_mul E ?B pg) = ec_mul E (pw * b + ?B) pg"
    by (rule ec_mul_add_scalar [OF L pg, symmetric])
  also have "ec_add E (ec_mul E (pw * r) ph) (ec_mul E ?R ph) = ec_mul E (pw * r + ?R) ph"
    by (rule ec_mul_add_scalar [OF L ph, symmetric])
  also have "pw * b + ?B = pw * binsum (b # bs)" by (simp add: algebra_simps)
  also have "pw * r + ?R = pw * binsum (r # rs)" by (simp add: algebra_simps)
  finally show ?case .
qed

lemma bit_commitments_group:
  assumes L: "ec_laws E G" and pg: "ec_group E pg = G" and ph: "ec_group E ph = G"
  shows "\<forall>c\<in>set (map (\<lambda>(b, r). ec_add E (ec_mul E b pg) (ec_mul E r ph)) (zip bs rs)).
     ec_group E c = G"
  by (auto simp: ec_add_group [OF L] ec_mul_group [OF L pg] ec_mul_group [OF L ph])


text \<open>
  Claim C7 (the precommitment of an honest prover passes the verifier's check). Let \<open>g\<close> and
  \<open>h\<close> lie in one group that obeys the laws, let the two secrets have the values \<open>v\<close> and
  \<open>r\<close> with \<open>com = v * g + r * h\<close>, \<open>0 \<le> v\<close> and \<^verbatim>\<open>v.num_bits()\<close> at most \<open>nr_bits\<close>. Then for
  every tape of draws, \<^verbatim>\<open>internal_precommit\<close> returns \<open>[C\<^sub>0, \<dots>, C\<^sub>n\<^sub>-\<^sub>1, \<rho>]\<close> with
  \<open>C\<^sub>i = b\<^sub>i * g + r\<^sub>i * h\<close> for the bits \<open>b\<^sub>i\<close> of \<open>v\<close> and the drawn randomizers \<open>r\<^sub>i\<close>, and
  \<open>\<rho> = (\<Sum> 2\<^sup>i * r\<^sub>i - r) mod order\<close>; and on every statement with the same \<open>com\<close>, \<open>g\<close>,
  \<open>h\<close> and \<open>nr_bits\<close> that holds this precommitment (\<^verbatim>\<open>build_constructed_proof\<close> stores it),
  \<^verbatim>\<open>check_adequate_lhs\<close> returns \<^verbatim>\<open>True\<close>.
\<close>

theorem range_precommitment_adequate:
  assumes L: "ec_laws E G" and pg: "ec_group E (g P) = G" and ph: "ec_group E (h P) = G"
    and sv: "secret_vars P = Some [sv, sr]" "val sv = Some v" "val sr = Some r"
    and v0: "0 \<le> v" and fits: "num_bits v \<le> nr_bits P"
    and len: "length (randomizers P) = nr_bits P"
    and cm: "pt_add E (ec_mul E v (g P)) (ec_mul E r (h P)) = Inr (com P)"
    and V: "com V = com P" "g V = g P" "h V = h P" "nr_bits V = nr_bits P"
  shows "\<exists>rs P' t'.
     length rs = nr_bits P \<and>
     internal_precommit E P t =
       Inr (map PrePoint
              (map (\<lambda>(b, r). ec_add E (ec_mul E b (g P)) (ec_mul E r (h P)))
                 (zip (map (\<lambda>b. if is_bit_set v b then 1 else 0) [0..<nr_bits P]) rs)) @
            [PreBn ((binsum rs - r) mod ec_order E G)], P', t') \<and>
     check_adequate_lhs E
       (V\<lparr>precommitment := Some
           (map PrePoint
              (map (\<lambda>(b, r). ec_add E (ec_mul E b (g P)) (ec_mul E r (h P)))
                 (zip (map (\<lambda>b. if is_bit_set v b then 1 else 0) [0..<nr_bits P]) rs)) @
            [PreBn ((binsum rs - r) mod ec_order E G)])\<rparr>) = Inr True"
proof -
  let ?n = "nr_bits P"
  let ?q = "ec_order E G"
  let ?bits = "map (\<lambda>b. if is_bit_set v b then 1 else (0 :: int)) [0..<?n]"
  note q = ec_order_pos [OF L]
  obtain rs t' where draw: "draw_randomizers ?q (randomizers P) t =
      (map (\<lambda>(s, r). s\<lparr>val := Some r\<rparr>) (zip (randomizers P) rs), t')"
    and lrs: "length rs = length (randomizers P)"
    using draw_randomizers_vals [of ?q "randomizers P" t] by blast
  let ?rands = "map (\<lambda>(s, r). s\<lparr>val := Some r\<rparr>) (zip (randomizers P) rs)"
  let ?cs = "map (\<lambda>(b, r). ec_add E (ec_mul E b (g P)) (ec_mul E r (h P))) (zip ?bits rs)"
  let ?rho = "(binsum rs - r) mod ?q"
  let ?pre = "map PrePoint ?cs @ [PreBn ?rho]"
  have lrn: "length rs = ?n" using lrs len by simp
  have lbits: "length ?bits = length rs" using lrn by simp
  have lcs: "length ?cs = ?n" using lrn by simp
  have dec: "decompose_into_n_bits v ?n = Inr ?bits"
    by (rule decompose_into_n_bits_fits [OF fits])
  have bc: "map_err (bit_commitment E (g P) (h P)) (zip ?bits ?rands) = Inr ?cs"
    by (rule bit_commitments_return [OF L pg ph lrs])
  have "revealed_loop ?q 0 1 ?rands = Inr ((0 + 1 * binsum rs) mod ?q)"
    by (rule revealed_loop_returns [OF q lrs]) (simp_all add: q)
  then have rl: "revealed_loop ?q 0 1 ?rands = Inr (binsum rs mod ?q)"
    by simp
  have rho: "mod_sub (binsum rs mod ?q) r ?q = ?rho"
    by (simp add: mod_sub_def mod_diff_left_eq)
  have pre: "internal_precommit E P t = Inr (?pre, P\<lparr>randomizers := ?rands\<rparr>, t')"
    unfolding internal_precommit_def Let_def pg sv
    by (simp add: sv dec draw bc rl rho del: upt_Suc)
  \<comment> \<open>the left side of the check\<close>
  have csg: "\<forall>c\<in>set ?cs. ec_group E c = G"
    by (rule bit_commitments_group [OF L pg ph])
  have vg: "ec_group E (ec_mul E v (g P)) = G" by (rule ec_mul_group [OF L pg])
  have rh: "ec_group E (ec_mul E r (h P)) = G" by (rule ec_mul_group [OF L ph])
  have Rh: "ec_group E (ec_mul E (binsum rs) (h P)) = G" by (rule ec_mul_group [OF L ph])
  have nrh: "ec_group E (ec_mul E (- r) (h P)) = G" by (rule ec_mul_group [OF L ph])
  let ?lhs = "ec_add E (ec_mul E v (g P)) (ec_mul E (binsum rs) (h P))"
  have lhsg: "ec_group E ?lhs = G" by (rule ec_add_group [OF L vg Rh])
  have "combine_loop E (ec_infinite E G) 1 (map PrePoint ?cs) =
      Inr (ec_add E (ec_infinite E G) (wsum E G 1 ?cs))"
    by (rule combine_loop_wsum [OF L ec_inf_group [OF L] csg])
  also have "ec_add E (ec_infinite E G) (wsum E G 1 ?cs) = wsum E G 1 ?cs"
    by (rule ec_add_inf_left [OF L wsum_group [OF L csg]])
  also have "wsum E G 1 ?cs =
      ec_add E (ec_mul E (1 * binsum ?bits) (g P)) (ec_mul E (1 * binsum rs) (h P))"
    by (rule wsum_bit_commitments [OF L pg ph lbits])
  also have "1 * binsum ?bits = v"
    using binsum_decompose [OF v0 fits] by simp
  also have "1 * binsum rs = binsum rs" by simp
  finally have comb: "combine_loop E (ec_infinite E G) 1 (map PrePoint ?cs) = Inr ?lhs" .
  \<comment> \<open>the right side of the check\<close>
  have cmeq: "com P = ec_add E (ec_mul E v (g P)) (ec_mul E r (h P))"
    using cm vg rh by (simp add: pt_add_def)
  have comg: "ec_group E (com P) = G"
    unfolding cmeq by (rule ec_add_group [OF L vg rh])
  have "ec_mul E ?rho (h P) = ec_mul E (binsum rs + - r) (h P)"
    by (simp add: ec_mul_mod [OF L ph])
  also have "\<dots> = ec_add E (ec_mul E (binsum rs) (h P)) (ec_mul E (- r) (h P))"
    by (rule ec_mul_add_scalar [OF L ph])
  finally have rhoh: "ec_mul E ?rho (h P) =
      ec_add E (ec_mul E (binsum rs) (h P)) (ec_mul E (- r) (h P))" .
  have "ec_add E (com P) (ec_mul E ?rho (h P)) =
      ec_add E (ec_add E (ec_mul E v (g P)) (ec_mul E r (h P)))
        (ec_add E (ec_mul E (binsum rs) (h P)) (ec_mul E (- r) (h P)))"
    by (simp only: cmeq rhoh)
  also have "\<dots> = ec_add E ?lhs (ec_add E (ec_mul E r (h P)) (ec_mul E (- r) (h P)))"
    by (rule ec_add_swap4 [OF L vg rh Rh nrh])
  also have "ec_add E (ec_mul E r (h P)) (ec_mul E (- r) (h P)) = ec_infinite E G"
    by (rule ec_add_cancel_neg [OF L ph])
  also have "ec_add E ?lhs (ec_infinite E G) = ?lhs"
    by (rule ec_add_inf_right [OF L lhsg])
  finally have rhs: "ec_add E (com P) (ec_mul E ?rho (h P)) = ?lhs" .
  have rhog: "ec_group E (ec_mul E ?rho (h P)) = G" by (rule ec_mul_group [OF L ph])
  have padd: "pt_add E (com P) (ec_mul E ?rho (h P)) = Inr ?lhs"
    using comg rhog rhs by (simp add: pt_add_def)
  define cs where "cs = ?cs"
  define pre where "pre = map PrePoint cs @ [PreBn ?rho]"
  have comb': "combine_loop E (ec_infinite E G) 1 (map PrePoint cs) = Inr ?lhs"
    unfolding cs_def by (rule comb)
  have lcs': "length cs = ?n"
    unfolding cs_def by (rule lcs)
  have tk: "take ?n pre = map PrePoint cs" and nth: "pre ! ?n = PreBn ?rho"
    and ln: "?n < length pre"
    unfolding pre_def using lcs' by (simp_all add: nth_append)
  let ?V = "V\<lparr>precommitment := Some pre\<rparr>"
  have VV: "precommitment ?V = Some pre" "nr_bits ?V = ?n" "g ?V = g P" "h ?V = h P"
    "com ?V = com P"
    by (simp_all add: V)
  have "check_adequate_lhs E ?V = Inr True"
    unfolding check_adequate_lhs_def VV
    by (simp add: ln tk nth pg comb' padd pt_eq_def)
  then have chk: "check_adequate_lhs E (V\<lparr>precommitment := Some (map PrePoint ?cs @ [PreBn ?rho])\<rparr>) =
      Inr True"
    unfolding pre_def cs_def .
  from lrn pre chk show ?thesis by blast
qed


text \<open>The constructor of the statement. \<^verbatim>\<open>Secret()\<close> gives each of the \<open>nr_bits\<close> new secrets a
  name of its own: \<open>fresh i\<close> is the name of the \<open>i\<close>-th of them.\<close>

definition PowerTwoRangeProof_init ::
  "'p \<Rightarrow> 'p \<Rightarrow> 'p \<Rightarrow> nat \<Rightarrow> Secret \<Rightarrow> Secret \<Rightarrow> (nat \<Rightarrow> string) \<Rightarrow> 'p PowerTwoRangeProof" where
  "PowerTwoRangeProof_init c0 pg ph n v r fresh =
     \<lparr>is_prover = (val v \<noteq> None \<and> val r \<noteq> None),
      secret_vars = (if val v \<noteq> None \<and> val r \<noteq> None then Some [v, r] else None),
      com = c0, g = pg, h = ph, nr_bits = n,
      randomizers = map (\<lambda>i. \<lparr>name = fresh i, val = None\<rparr>) [0..<n],
      precommitment = None\<rparr>"

text \<open>A prover's statement for the value 5 on 3 bits with randomizer 2, the verifier's
  statement for the same commitment, and a prover's statement for the value 32 on 5 bits.\<close>

definition R5 :: "(nat \<times> 7) PowerTwoRangeProof" where
  "R5 = PowerTwoRangeProof_init (0, 4) (0, 1) (0, 3) 3
     \<lparr>name = ''v'', val = Some 5\<rparr> \<lparr>name = ''r'', val = Some 2\<rparr> (\<lambda>i. replicate (Suc i) CHR ''s'')"

definition R5v :: "(nat \<times> 7) PowerTwoRangeProof" where
  "R5v = PowerTwoRangeProof_init (0, 4) (0, 1) (0, 3) 3
     \<lparr>name = ''v'', val = None\<rparr> \<lparr>name = ''r'', val = None\<rparr> (\<lambda>i. replicate (Suc i) CHR ''s'')"

definition R32 :: "(nat \<times> 7) PowerTwoRangeProof" where
  "R32 = PowerTwoRangeProof_init (0, 1) (0, 1) (0, 3) 5
     \<lparr>name = ''v'', val = Some 32\<rparr> \<lparr>name = ''r'', val = Some 2\<rparr> (\<lambda>i. replicate (Suc i) CHR ''s'')"

lemma num_bits_5: "num_bits 5 = 3"
  by (simp add: num_bits_def nat_num_bits.simps)

lemma decompose_5_3: "decompose_into_n_bits 5 3 = Inr [1, 0, 1]"
  by (simp add: decompose_into_n_bits_def Let_def num_bits_5 is_bit_set_def upt_rec)

lemma R5_precommit:
  "\<exists>P'. internal_precommit Z7_lib R5 (\<lambda>n. int n + 1) =
     Inr ([PrePoint (0, 4), PrePoint (0, 6), PrePoint (0, 3), PreBn 1], P', \<lambda>n. int n + 4)"
  by (simp add: internal_precommit_def R5_def PowerTwoRangeProof_init_def Let_def decompose_5_3
        upt_rec random_def bit_commitment_def pt_add_def mod_add_def mod_sub_def Z7_lib_def
        add.commute)


theorem range_precommitment_adequate_witness:
  "(\<exists>P'. internal_precommit Z7_lib R5 (\<lambda>n. int n + 1) =
      Inr ([PrePoint (0, 4), PrePoint (0, 6), PrePoint (0, 3), PreBn 1], P', \<lambda>n. int n + 4)) \<and>
   check_adequate_lhs Z7_lib
     (R5v\<lparr>precommitment := Some [PrePoint (0, 4), PrePoint (0, 6), PrePoint (0, 3), PreBn 1]\<rparr>) =
     Inr True"
proof -
  have hyps: "ec_group Z7_lib (g R5) = 0" "ec_group Z7_lib (h R5) = 0"
    "secret_vars R5 = Some [\<lparr>name = ''v'', val = Some 5\<rparr>, \<lparr>name = ''r'', val = Some 2\<rparr>]"
    "val \<lparr>name = ''v'', val = Some 5\<rparr> = Some 5" "val \<lparr>name = ''r'', val = Some 2\<rparr> = Some 2"
    "(0 :: int) \<le> 5" "num_bits 5 \<le> nr_bits R5" "length (randomizers R5) = nr_bits R5"
    "pt_add Z7_lib (ec_mul Z7_lib 5 (g R5)) (ec_mul Z7_lib 2 (h R5)) = Inr (com R5)"
    "com R5v = com R5" "g R5v = g R5" "h R5v = h R5" "nr_bits R5v = nr_bits R5"
    by (simp_all add: R5_def R5v_def PowerTwoRangeProof_init_def num_bits_5 pt_add_def Z7_lib_def)
  from range_precommitment_adequate [OF Z7_laws hyps, of "\<lambda>n. int n + 1"]
  obtain pre P' t' where
    1: "internal_precommit Z7_lib R5 (\<lambda>n. int n + 1) = Inr (pre, P', t')" and
    2: "check_adequate_lhs Z7_lib (R5v\<lparr>precommitment := Some pre\<rparr>) = Inr True"
    by blast
  from R5_precommit obtain P'' where
    3: "internal_precommit Z7_lib R5 (\<lambda>n. int n + 1) =
      Inr ([PrePoint (0, 4), PrePoint (0, 6), PrePoint (0, 3), PreBn 1], P'', \<lambda>n. int n + 4)"
    by blast
  from 1 3 have "pre = [PrePoint (0, 4), PrePoint (0, 6), PrePoint (0, 3), PreBn 1]" by simp
  with 2 R5_precommit show ?thesis by simp
qed

theorem decompose_into_n_bits_range_witness:
  "decompose_into_n_bits 10 5 = Inr [0, 1, 0, 1, 0] \<and>
   decompose_into_n_bits 32 5 = Inl (Exception ''Not enough bits to represent value'') \<and>
   internal_precommit Z7_lib R32 (\<lambda>n. int n + 1) =
     Inl (Exception ''Not enough bits to represent value'')"
proof -
  note T10 = decompose_into_n_bits_range [of 10 5 R32 "[]" Z7_lib "\<lambda>n. int n + 1"]
  note T32 = decompose_into_n_bits_range
    [of 32 5 R32 "[\<lparr>name = ''v'', val = Some 32\<rparr>, \<lparr>name = ''r'', val = Some 2\<rparr>]" Z7_lib
       "\<lambda>n. int n + 1"]
  have "decompose_into_n_bits 10 5 = Inr (map (\<lambda>b. if is_bit_set 10 b then 1 else 0) [0..<5])"
    using T10 by (simp add: num_bits_10)
  then have a: "decompose_into_n_bits 10 5 = Inr [0, 1, 0, 1, 0]"
    by (simp add: is_bit_set_def upt_rec)
  have b: "decompose_into_n_bits 32 5 = Inl (Exception ''Not enough bits to represent value'')"
    using T32 by (simp add: num_bits_32)
  have "secret_vars R32 = Some [\<lparr>name = ''v'', val = Some 32\<rparr>, \<lparr>name = ''r'', val = Some 2\<rparr>]"
    "nr_bits R32 = 5"
    by (simp_all add: R32_def PowerTwoRangeProof_init_def)
  then have c: "internal_precommit Z7_lib R32 (\<lambda>n. int n + 1) =
      Inl (Exception ''Not enough bits to represent value'')"
    using T32 by (simp add: num_bits_32)
  from a b c show ?thesis by simp
qed

end
